theory Spec2Isabelle
  imports Main "HOL-Library.Sublist"
begin

section \<open>Strings\<close>

text \<open>
  A Python \<open>str\<close> is modelled as a \<open>string\<close>, each \<open>char\<close> standing for the
  code point of the same number (0 to 255). The character classes below are the ones
  Python uses on that range: \<open>str.isspace\<close> (which is also what \<open>\s\<close> matches in a
  \<open>str\<close> pattern and what \<open>str.strip()\<close> removes) and the decimal digits matched
  by \<open>\d\<close>.
\<close>

definition newline :: char where
  "newline = CHR 0x0A"

definition is_space :: "char \<Rightarrow> bool" where
  "is_space c = (c \<in> set [CHR 0x09, CHR 0x0A, CHR 0x0B, CHR 0x0C, CHR 0x0D,
                            CHR 0x1C, CHR 0x1D, CHR 0x1E, CHR 0x1F, CHR 0x20,
                            CHR 0x85, CHR 0xA0])"

definition is_digit :: "char \<Rightarrow> bool" where
  "is_digit c = (c \<in> set ''0123456789'')"

text \<open>\<open>s.strip()\<close>: leading and trailing whitespace removed.\<close>

definition strip :: "string \<Rightarrow> string" where
  "strip s = rev (dropWhile is_space (rev (dropWhile is_space s)))"

text \<open>\<open>s.replace(old, new)\<close> for one-character \<open>old\<close> and \<open>new\<close>.\<close>

definition replace_char :: "char \<Rightarrow> char \<Rightarrow> string \<Rightarrow> string" where
  "replace_char old new s = map (\<lambda>c. if c = old then new else c) s"

text \<open>\<open>sep.join(parts)\<close>.\<close>

fun join :: "string \<Rightarrow> string list \<Rightarrow> string" where
  "join sep [] = []"
| "join sep [x] = x"
| "join sep (x # y # ys) = x @ sep @ join sep (y # ys)"

text \<open>
  \<open>s.lower()\<close> on the code points 0 to 255: the ASCII capitals and the Latin-1
  capitals \<open>0xC0\<close> to \<open>0xDE\<close> (without the multiplication sign \<open>0xD7\<close>) move up by 32.
\<close>

definition lower_char :: "char \<Rightarrow> char" where
  "lower_char c =
     (let n = (of_char c :: nat)
      in if (65 \<le> n \<and> n \<le> 90) \<or> (192 \<le> n \<and> n \<le> 222 \<and> n \<noteq> 215)
         then char_of (n + 32) else c)"

definition lower :: "string \<Rightarrow> string" where
  "lower s = map lower_char s"

text \<open>\<open>s.endswith(suffix)\<close>.\<close>

definition endswith :: "string \<Rightarrow> string \<Rightarrow> bool" where
  "endswith s suf = (length suf \<le> length s \<and> drop (length s - length suf) s = suf)"

text \<open>Lengths of the pieces \<open>takeWhile\<close> and \<open>dropWhile\<close> cut a list into.\<close>

lemma length_takeWhile_less_mem:
  "x \<in> set xs \<Longrightarrow> \<not> P x \<Longrightarrow> length (takeWhile P xs) < length xs"
  by (induction xs) auto

lemma length_dropWhile_less:
  "takeWhile P r \<noteq> [] \<Longrightarrow> length (dropWhile P r) < length r"
  by (cases r) (auto simp: less_Suc_eq_le length_dropWhile_le split: if_splits)

lemma length_takeWhile_dropWhile:
  "length (takeWhile P xs) + length (dropWhile P xs) = length xs"
  by (induction xs) auto

section \<open>Errors\<close>

text \<open>The services raise \<open>ValueError\<close> with a message.\<close>

datatype error = ValueError string

section \<open>PDFService._sanitize_filename\<close>

text \<open>
  \<open>os.path.basename\<close> of \<open>posixpath\<close>: everything after the last \<open>/\<close>
  (\<open>i = p.rfind('/') + 1; return p[i:]\<close>).
\<close>

definition basename :: "string \<Rightarrow> string" where
  "basename p = rev (takeWhile (\<lambda>c. c \<noteq> CHR ''/'') (rev p))"

definition dangerous_chars :: "char list" where
  "dangerous_chars = [CHR ''<'', CHR ''>'', CHR '':'', CHR 0x22, CHR ''|'', CHR ''?'',
                      CHR ''*'', CHR 0x5C, CHR ''/'']"

text \<open>The loop \<open>for char in dangerous_chars: filename = filename.replace(char, '_')\<close>.\<close>

fun replace_all :: "char list \<Rightarrow> string \<Rightarrow> string" where
  "replace_all [] filename = filename"
| "replace_all (char # chars) filename = replace_all chars (replace_char char CHR ''_'' filename)"

definition sanitize_filename :: "string \<Rightarrow> string" where
  "sanitize_filename filename0 =
     (let filename = basename filename0;
          filename = replace_all dangerous_chars filename
      in if \<not> endswith (lower filename) ''.pdf'' then filename @ ''.pdf'' else filename)"

text \<open>
  \<open>self.upload_dir / name\<close> for a name of one component. \<open>self.upload_dir\<close> is a
  \<open>pathlib.Path\<close>; \<open>upload_dir\<close> stands for its string form, which pathlib keeps
  normalised: \<open>.\<close> for the current directory, a path that ends with \<open>/\<close> only for a
  root, and no trailing \<open>/\<close> otherwise. Joining a name to \<open>.\<close> gives the name
  alone; joining it to a root adds no second separator.
\<close>

definition path_join :: "string \<Rightarrow> string \<Rightarrow> string" where
  "path_join upload_dir name =
     (if upload_dir = ''.'' then name
      else if upload_dir \<noteq> [] \<and> last upload_dir = CHR ''/'' then upload_dir @ name
      else upload_dir @ ''/'' @ name)"

text \<open>The path \<open>save_pdf\<close> writes to: \<open>file_path = self.upload_dir / safe_filename\<close>.\<close>

definition save_pdf_path :: "string \<Rightarrow> string \<Rightarrow> string" where
  "save_pdf_path upload_dir filename = path_join upload_dir (sanitize_filename filename)"

text \<open>
  \<open>save_pdf\<close>. Opening the file and writing to it is external: \<open>write_file\<close> gives
  \<open>None\<close> when both return and the text of the exception when one of them raises,
  which \<open>save_pdf\<close> turns into a \<open>ValueError\<close>. Otherwise the path is returned.
\<close>

definition save_pdf :: "(string \<Rightarrow> string option) \<Rightarrow> string \<Rightarrow> string \<Rightarrow> error + string" where
  "save_pdf write_file upload_dir filename =
     (let safe_filename = sanitize_filename filename;
          file_path = path_join upload_dir safe_filename
      in case write_file file_path of
           None \<Rightarrow> Inr file_path
         | Some e \<Rightarrow> Inl (ValueError (''Failed to save PDF: '' @ e)))"

section \<open>PDFService.count_tokens\<close>

text \<open>
  \<open>self.tokenizer\<close> is the tiktoken encoding, or \<open>None\<close> when loading it failed.
  The encoding is an external function from text to a list of token ids.
\<close>

type_synonym tokenizer = "(string \<Rightarrow> nat list) option"

definition count_tokens :: "tokenizer \<Rightarrow> string \<Rightarrow> int" where
  "count_tokens tokenizer text =
     (case tokenizer of
        Some encode \<Rightarrow> int (length (encode text))
      | None \<Rightarrow> int (length text) div 4)"

section \<open>PDFService._clean_text\<close>

text \<open>
  \<open>re.sub(r'\s+', ' ', text)\<close>: every maximal run of whitespace becomes one space.
\<close>

function collapse_ws :: "string \<Rightarrow> string" where
  "collapse_ws [] = []"
| "collapse_ws (c # cs) =
     (if is_space c then CHR '' '' # collapse_ws (dropWhile is_space cs)
      else c # collapse_ws cs)"
  by pat_completeness auto
termination
  by (relation "measure length") (auto simp: length_dropWhile_le less_Suc_eq_le)

text \<open>The part of a whitespace run that follows its last line break.\<close>

definition after_last_newline :: "string \<Rightarrow> string" where
  "after_last_newline w = rev (takeWhile (\<lambda>c. c \<noteq> newline) (rev w))"

text \<open>
  One attempt to match \<open>^\s*\d+\s*$\<close> (with \<open>re.MULTILINE\<close>) at a line start.
  Whitespace and digits are disjoint, so the first \<open>\s*\<close> and \<open>\d+\<close> take their
  maximal runs. The last \<open>\s*\<close> is greedy: the match reaches the end of the text when
  only whitespace follows the digits; otherwise it backs off to the last line break of
  the whitespace run, where \<open>$\<close> holds; without a line break there the attempt fails.
  The result is the text left after the match and whether that text starts a line.
\<close>

definition match_page_number :: "string \<Rightarrow> (bool \<times> string) option" where
  "match_page_number t =
     (let r1 = dropWhile is_space t;
          ds = takeWhile is_digit r1;
          r2 = dropWhile is_digit r1;
          w = takeWhile is_space r2;
          r3 = dropWhile is_space r2
      in if ds = [] then None
         else if r3 = [] then Some (False, [])
         else if newline \<in> set w then
           (let w2 = after_last_newline w;
                w1 = take (length w - length w2 - 1) w
            in Some (w1 \<noteq> [] \<and> last w1 = newline, newline # w2 @ r3))
         else None)"

lemma after_last_newline_shorter:
  "newline \<in> set w \<Longrightarrow> length (after_last_newline w) < length w"
  using length_takeWhile_less_mem [of newline "rev w" "\<lambda>c. c \<noteq> newline"]
  by (simp add: after_last_newline_def)

lemma match_page_number_shorter:
  assumes "match_page_number t = Some (b, r)"
  shows "length r < length t"
proof -
  let ?r1 = "dropWhile is_space t"
  let ?r2 = "dropWhile is_digit ?r1"
  let ?w = "takeWhile is_space ?r2"
  let ?r3 = "dropWhile is_space ?r2"
  from assms have ds: "takeWhile is_digit ?r1 \<noteq> []"
    unfolding match_page_number_def Let_def by (metis option.distinct(1))
  have l1: "length ?r1 \<le> length t" by (rule length_dropWhile_le)
  have l2: "length ?r2 < length ?r1" using ds by (rule length_dropWhile_less)
  have l3: "length ?w + length ?r3 = length ?r2" by (rule length_takeWhile_dropWhile)
  show ?thesis
  proof (cases "?r3 = []")
    case True
    with assms ds have "r = []"
      unfolding match_page_number_def Let_def by simp
    moreover from l1 l2 have "0 < length t" by linarith
    ultimately show ?thesis by simp
  next
    case False
    with assms ds have r: "r = newline # after_last_newline ?w @ ?r3"
      and nl: "newline \<in> set ?w"
      unfolding match_page_number_def Let_def by (auto split: if_splits)
    from nl have "length (after_last_newline ?w) < length ?w"
      by (rule after_last_newline_shorter)
    with r l1 l2 l3 show ?thesis by simp
  qed
qed

text \<open>
  \<open>re.sub(r'^\s*\d+\s*$', '', text, flags=re.MULTILINE)\<close>, scanning left to right.
  The flag says whether the current position starts a line (the start of the text, or the
  position after a line break).
\<close>

function sub_page_numbers :: "bool \<Rightarrow> string \<Rightarrow> string" where
  "sub_page_numbers bol [] = []"
| "sub_page_numbers bol (c # cs) =
     (case (if bol then match_page_number (c # cs) else None) of
        Some (bol', rest) \<Rightarrow> sub_page_numbers bol' rest
      | None \<Rightarrow> c # sub_page_numbers (c = newline) cs)"
  by pat_completeness auto
termination
proof (relation "measure (\<lambda>(bol, t). length t)")
  fix bol bol' :: bool and c :: char and cs rest :: string and x :: "bool \<times> string"
  assume "(if bol then match_page_number (c # cs) else None) = Some x"
    and "(bol', rest) = x"
  then have "match_page_number (c # cs) = Some (bol', rest)"
    by (simp split: if_splits)
  then have "length rest < length (c # cs)"
    by (rule match_page_number_shorter)
  then show "((bol', rest), (bol, c # cs)) \<in> measure (\<lambda>(bol, t). length t)"
    by simp
qed auto

text \<open>
  \<open>re.sub(r'\n\s*\n\s*\n+', '\n\n', text)\<close>: a match starts at a line break whose
  following whitespace run holds at least two more line breaks, and ends with the last
  line break of that run.
\<close>

function sub_line_breaks :: "string \<Rightarrow> string" where
  "sub_line_breaks [] = []"
| "sub_line_breaks (c # cs) =
     (let w = takeWhile is_space cs
      in if c = newline \<and> 2 \<le> count_list w newline
         then newline # newline #
              sub_line_breaks (after_last_newline w @ dropWhile is_space cs)
         else c # sub_line_breaks cs)"
  by pat_completeness auto
termination
proof (relation "measure length")
  fix c :: char and cs w :: string
  assume w: "w = takeWhile is_space cs"
  have "length (after_last_newline w) \<le> length w"
    using length_takeWhile_le [of "\<lambda>c. c \<noteq> newline" "rev w"]
    by (simp add: after_last_newline_def)
  moreover have "length w + length (dropWhile is_space cs) = length cs"
    unfolding w by (rule length_takeWhile_dropWhile)
  ultimately show "(after_last_newline w @ dropWhile is_space cs, c # cs) \<in> measure length"
    by simp
qed auto

definition clean_text :: "string \<Rightarrow> string" where
  "clean_text text0 =
     (let text = collapse_ws text0;
          text = sub_page_numbers True text;
          text = replace_char CHR ''|'' CHR ''I'' text;
          text = replace_char CHR ''0'' CHR ''O'' text;
          text = sub_line_breaks text
      in strip text)"

text \<open>The two character repairs of \<open>_clean_text\<close> as one map.\<close>

definition repair :: "char \<Rightarrow> char" where
  "repair c = (if c = CHR ''|'' then CHR ''I'' else if c = CHR ''0'' then CHR ''O'' else c)"

text \<open>
  A text in which every whitespace character is a space and no two of them are adjacent.
\<close>

definition single_spaced :: "string \<Rightarrow> bool" where
  "single_spaced t =
     ((\<forall>c \<in> set t. is_space c \<longrightarrow> c = CHR '' '') \<and>
      successively (\<lambda>a b. \<not> (is_space a \<and> is_space b)) t)"

text \<open>A text that is a number with whitespace around it.\<close>

definition numeric_line :: "string \<Rightarrow> bool" where
  "numeric_line t = (strip t \<noteq> [] \<and> (\<forall>c \<in> set (strip t). is_digit c))"

section \<open>PDFService._split_into_sentences\<close>

definition sentence_end :: "char \<Rightarrow> bool" where
  "sentence_end c = (c \<in> set ''.!?'')"

text \<open>
  \<open>re.split(r'(?<=[.!?])\s+', text)\<close>: a separator is a maximal whitespace run that
  follows a \<open>.\<close>, \<open>!\<close> or \<open>?\<close>. The first argument is the piece read so far; it is
  empty exactly at the start of the text and right after a separator, where the
  look-behind fails.
\<close>

function re_split_sentences :: "string \<Rightarrow> string \<Rightarrow> string list" where
  "re_split_sentences piece [] = [piece]"
| "re_split_sentences piece (c # cs) =
     (if piece \<noteq> [] \<and> sentence_end (last piece) \<and> is_space c
      then piece # re_split_sentences [] (dropWhile is_space cs)
      else re_split_sentences (piece @ [c]) cs)"
  by pat_completeness auto
termination
  by (relation "measure (\<lambda>(piece, t). length t)")
     (auto simp: length_dropWhile_le less_Suc_eq_le)

definition split_into_sentences :: "string \<Rightarrow> string list" where
  "split_into_sentences text =
     (let sentences = re_split_sentences [] text
      in map strip (filter (\<lambda>s. strip s \<noteq> []) sentences))"

section \<open>PDFService._create_chunks\<close>

text \<open>
  \<open>PDFChunk\<close>. The metadata dictionary maps \<open>'tokens'\<close>, \<open>'start_sentence'\<close> and
  \<open>'end_sentence'\<close> to integers.
\<close>

record PDFChunk =
  content :: string
  page_number :: int
  chunk_index :: int
  metadata :: "string \<rightharpoonup> int"

definition make_chunk :: "int \<Rightarrow> int \<Rightarrow> string list \<Rightarrow> int \<Rightarrow> PDFChunk" where
  "make_chunk page idx current_chunk current_tokens =
     \<lparr>content = join '' '' current_chunk,
      page_number = page,
      chunk_index = idx,
      metadata = [''tokens'' \<mapsto> current_tokens,
                  ''start_sentence'' \<mapsto> 0,
                  ''end_sentence'' \<mapsto> int (length current_chunk)]\<rparr>"

text \<open>\<open>current_chunk[-2:] if len(current_chunk) >= 2 else current_chunk\<close>.\<close>

definition overlap_sentences :: "string list \<Rightarrow> string list" where
  "overlap_sentences current_chunk =
     (if 2 \<le> length current_chunk then drop (length current_chunk - 2) current_chunk
      else current_chunk)"

text \<open>
  The loop over the sentences. Its state is \<open>(chunks, current_chunk, current_tokens,
  chunk_index)\<close>.
\<close>

type_synonym chunker_state = "PDFChunk list \<times> string list \<times> int \<times> int"

fun chunk_loop :: "tokenizer \<Rightarrow> int \<Rightarrow> int \<Rightarrow> string list \<Rightarrow> chunker_state \<Rightarrow> chunker_state" where
  "chunk_loop tk page max_tokens [] st = st"
| "chunk_loop tk page max_tokens (sentence # rest) (chunks, current_chunk, current_tokens, idx) =
     (let sentence_tokens = count_tokens tk sentence
      in if current_tokens + sentence_tokens > max_tokens \<and> current_chunk \<noteq> [] then
           (let chunk = make_chunk page idx current_chunk current_tokens;
                current_chunk' = overlap_sentences current_chunk @ [sentence];
                current_tokens' = sum_list (map (count_tokens tk) current_chunk')
            in chunk_loop tk page max_tokens rest
                 (chunks @ [chunk], current_chunk', current_tokens', idx + 1))
         else chunk_loop tk page max_tokens rest
                (chunks, current_chunk @ [sentence], current_tokens + sentence_tokens, idx))"

definition create_chunks :: "tokenizer \<Rightarrow> string \<Rightarrow> int \<Rightarrow> int \<Rightarrow> PDFChunk list" where
  "create_chunks tk text page max_tokens =
     (if strip text = [] then []
      else
        (case chunk_loop tk page max_tokens (split_into_sentences text) ([], [], 0, 0) of
           (chunks, current_chunk, current_tokens, idx) \<Rightarrow>
             if current_chunk \<noteq> []
             then chunks @ [make_chunk page idx current_chunk current_tokens]
             else chunks))"

text \<open>
  The sentence buffers behind the chunks: the same loop, recording at each point where
  \<open>chunk_loop\<close> builds a chunk the list \<open>current_chunk\<close> and the count
  \<open>current_tokens\<close> it is built from. \<open>create_chunks_from_buffers\<close> below shows that
  the chunks are exactly these buffers passed to \<open>make_chunk\<close>.
\<close>

type_synonym buffer_state = "(string list \<times> int) list \<times> string list \<times> int"

fun buffer_loop :: "tokenizer \<Rightarrow> int \<Rightarrow> string list \<Rightarrow> buffer_state \<Rightarrow> buffer_state" where
  "buffer_loop tk max_tokens [] st = st"
| "buffer_loop tk max_tokens (sentence # rest) (closed, current_chunk, current_tokens) =
     (let sentence_tokens = count_tokens tk sentence
      in if current_tokens + sentence_tokens > max_tokens \<and> current_chunk \<noteq> [] then
           (let current_chunk' = overlap_sentences current_chunk @ [sentence];
                current_tokens' = sum_list (map (count_tokens tk) current_chunk')
            in buffer_loop tk max_tokens rest
                 (closed @ [(current_chunk, current_tokens)], current_chunk', current_tokens'))
         else buffer_loop tk max_tokens rest
                (closed, current_chunk @ [sentence], current_tokens + sentence_tokens))"

definition chunk_buffers :: "tokenizer \<Rightarrow> string \<Rightarrow> int \<Rightarrow> (string list \<times> int) list" where
  "chunk_buffers tk text max_tokens =
     (if strip text = [] then []
      else
        (case buffer_loop tk max_tokens (split_into_sentences text) ([], [], 0) of
           (closed, current_chunk, current_tokens) \<Rightarrow>
             if current_chunk \<noteq> [] then closed @ [(current_chunk, current_tokens)]
             else closed))"

text \<open>The recorded token count of a chunk: \<open>chunk.metadata.get('tokens', 0)\<close>.\<close>

definition recorded_tokens :: "PDFChunk \<Rightarrow> int" where
  "recorded_tokens chunk = (case metadata chunk ''tokens'' of Some t \<Rightarrow> t | None \<Rightarrow> 0)"

text \<open>
  The sentences a chunk adds to its predecessor: its buffer without its overlap prefix,
  which is as long as the last two sentences of the predecessor (two sentences, or fewer
  when the predecessor has fewer).
\<close>

definition new_sentences :: "string list \<Rightarrow> string list \<Rightarrow> string list" where
  "new_sentences previous buffer = drop (min 2 (length previous)) buffer"

fun without_overlaps :: "string list \<Rightarrow> string list list \<Rightarrow> string list" where
  "without_overlaps previous [] = []"
| "without_overlaps previous (b # bs) = new_sentences previous b @ without_overlaps b bs"

text \<open>One round of \<open>buffer_loop\<close>.\<close>

definition buffer_step :: "tokenizer \<Rightarrow> int \<Rightarrow> string \<Rightarrow> buffer_state \<Rightarrow> buffer_state" where
  "buffer_step tk max_tokens sentence st =
     (case st of (closed, current_chunk, current_tokens) \<Rightarrow>
        if current_tokens + count_tokens tk sentence > max_tokens \<and> current_chunk \<noteq> [] then
          (closed @ [(current_chunk, current_tokens)],
           overlap_sentences current_chunk @ [sentence],
           sum_list (map (count_tokens tk) (overlap_sentences current_chunk @ [sentence])))
        else (closed, current_chunk @ [sentence], current_tokens + count_tokens tk sentence))"

text \<open>All buffers of a state, the open one last.\<close>

fun all_buffers :: "buffer_state \<Rightarrow> (string list \<times> int) list" where
  "all_buffers (closed, cur, toks) = closed @ [(cur, toks)]"

text \<open>
  A buffer is seeded by its predecessor when it starts with the predecessor's overlap
  sentences and goes on with at least one more sentence.
\<close>

definition seeded :: "string list \<Rightarrow> string list \<Rightarrow> bool" where
  "seeded p b = (\<exists>rest. rest \<noteq> [] \<and> b = overlap_sentences p @ rest)"

text \<open>
  The token count kept with a buffer is the sum over its sentences, and it is within the
  limit unless the buffer is its predecessor's overlap and one more sentence.
\<close>

definition within :: "tokenizer \<Rightarrow> int \<Rightarrow> string list \<times> int \<Rightarrow> string list \<times> int \<Rightarrow> bool" where
  "within tk m p b = (snd b = sum_list (map (count_tokens tk) (fst b)) \<and>
      (fst b = [] \<or> snd b \<le> m \<or> length (fst b) = length (overlap_sentences (fst p)) + 1))"

text \<open>
  Invariants of \<open>buffer_loop\<close>, relative to the sentences \<open>seen\<close> so far: successive
  buffers are seeded; token counts are sums and bounded as above, and an empty open buffer
  means nothing was closed; the buffers without their overlaps are the sentences seen;
  closed buffers are non-empty runs of the sentences seen, and the open buffer ends them.
\<close>

definition inv_link :: "buffer_state \<Rightarrow> bool" where
  "inv_link st = successively seeded (map fst (all_buffers st))"

definition inv_within :: "tokenizer \<Rightarrow> int \<Rightarrow> buffer_state \<Rightarrow> bool" where
  "inv_within tk m st =
     (successively (within tk m) (([], 0) # all_buffers st) \<and>
      (fst (snd st) = [] \<longrightarrow> fst st = []))"

definition inv_cover :: "string list \<Rightarrow> buffer_state \<Rightarrow> bool" where
  "inv_cover seen st = (without_overlaps [] (map fst (all_buffers st)) = seen)"

definition inv_sub :: "string list \<Rightarrow> buffer_state \<Rightarrow> bool" where
  "inv_sub seen st =
     ((\<forall>b \<in> set (fst st). fst b \<noteq> [] \<and> sublist (fst b) seen) \<and> suffix (fst (snd st)) seen)"

definition buf_inv :: "tokenizer \<Rightarrow> int \<Rightarrow> string list \<Rightarrow> buffer_state \<Rightarrow> bool" where
  "buf_inv tk m seen st =
     (inv_link st \<and> inv_within tk m st \<and> inv_cover seen st \<and> inv_sub seen st)"

text \<open>The chunks built from a list of buffers, numbered from 0.\<close>

definition chunks_of_buffers :: "int \<Rightarrow> (string list \<times> int) list \<Rightarrow> PDFChunk list" where
  "chunks_of_buffers page bufs =
     map (\<lambda>(i, b, t). make_chunk page (int i) b t) (enumerate 0 bufs)"

section \<open>RAGService\<close>

text \<open>
  The vector store is an external service. What the code needs from it is taken as
  given: whether \<open>collections.get\<close> and \<open>insert_many\<close> return or raise, and what
  \<open>near_text\<close> answers to a query and a limit (\<open>None\<close> when it raises). The objects
  it returns carry the stored properties; \<open>tokens\<close> is \<open>None\<close> for an object stored
  without that property. The \<open>uploaded_at\<close> time stamp and the similarity score (a
  floating-point number that is only logged) are left out.
\<close>

record data_object =
  obj_content :: string
  obj_page_number :: int
  obj_chunk_index :: int
  obj_filename :: string
  obj_tokens :: int

record search_result =
  result_content :: string
  result_page_number :: int
  result_chunk_index :: int
  result_filename :: string
  result_tokens :: "int option"

record weaviate =
  collection_get_ok :: bool
  insert_many_ok :: "data_object list \<Rightarrow> bool"
  near_text :: "string \<Rightarrow> nat \<Rightarrow> search_result list option"

definition to_data_object :: "string \<Rightarrow> PDFChunk \<Rightarrow> data_object" where
  "to_data_object filename chunk =
     \<lparr>obj_content = content chunk,
      obj_page_number = page_number chunk,
      obj_chunk_index = chunk_index chunk,
      obj_filename = filename,
      obj_tokens = recorded_tokens chunk\<rparr>"

text \<open>
  The batch loop of \<open>create_embeddings\<close>: slices of \<open>batch_size = 100\<close> chunks, each
  sent with \<open>insert_many\<close>. The result is whether every call returned.
\<close>

function insert_batches :: "weaviate \<Rightarrow> string \<Rightarrow> PDFChunk list \<Rightarrow> bool" where
  "insert_batches wv filename chunks =
     (if chunks = [] then True
      else if insert_many_ok wv (map (to_data_object filename) (take 100 chunks))
           then insert_batches wv filename (drop 100 chunks)
           else False)"
  by pat_completeness auto
termination
  by (relation "measure (\<lambda>(wv, filename, chunks). length chunks)") auto

declare insert_batches.simps [simp del]

text \<open>
  \<open>create_embeddings\<close>: \<open>False\<close> for no chunks and when a call to the store raises
  (the \<open>except\<close> branch). \<open>_clear_existing_data\<close> swallows its own exceptions.
\<close>

definition create_embeddings :: "weaviate \<Rightarrow> PDFChunk list \<Rightarrow> string \<Rightarrow> bool" where
  "create_embeddings wv chunks filename =
     (if chunks = [] then False
      else if \<not> collection_get_ok wv then False
      else insert_batches wv filename chunks)"

text \<open>
  \<open>search\<close>: \<open>top_k * 3\<close> objects are requested; with a file name only the results of
  that file are kept; the first \<open>top_k\<close> are returned. A failing query gives \<open>[]\<close>.
\<close>

definition search :: "weaviate \<Rightarrow> string \<Rightarrow> nat \<Rightarrow> string option \<Rightarrow> search_result list" where
  "search wv query top_k filename =
     (case near_text wv query (top_k * 3) of
        None \<Rightarrow> []
      | Some all_results \<Rightarrow>
          (if filename \<noteq> None \<and> filename \<noteq> Some []
           then take top_k (filter (\<lambda>r. Some (result_filename r) = filename) all_results)
           else take top_k all_results))"

text \<open>\<open>str(n)\<close> for an integer: decimal digits, with a minus sign when negative.\<close>

definition digit_char :: "nat \<Rightarrow> char" where
  "digit_char d = char_of (48 + d)"

fun str_nat :: "nat \<Rightarrow> string" where
  "str_nat n = (if n < 10 then [digit_char n] else str_nat (n div 10) @ [digit_char (n mod 10)])"

declare str_nat.simps [simp del]

definition str_int :: "int \<Rightarrow> string" where
  "str_int i = (if i < 0 then CHR ''-'' # str_nat (nat (- i)) else str_nat (nat i))"

text \<open>\<open>f"[Page {result['page_number']}] {result['content']}"\<close>.\<close>

definition context_part :: "search_result \<Rightarrow> string" where
  "context_part result =
     ''[Page '' @ str_int (result_page_number result) @ ''] '' @ result_content result"

text \<open>
  The loop of \<open>get_relevant_context\<close> over the results, with state
  \<open>(context_parts, current_tokens)\<close>. Every result of \<open>search\<close> has the key
  \<open>'tokens'\<close>, so \<open>result.get('tokens', ...)\<close> is the stored value; when that is
  \<open>None\<close> the addition raises, which is the result \<open>None\<close> here.
\<close>

fun context_loop :: "int \<Rightarrow> search_result list \<Rightarrow> string list \<times> int \<Rightarrow> (string list \<times> int) option" where
  "context_loop max_tokens [] st = Some st"
| "context_loop max_tokens (result # rest) (context_parts, current_tokens) =
     (case result_tokens result of
        None \<Rightarrow> None
      | Some chunk_tokens \<Rightarrow>
          if current_tokens + chunk_tokens > max_tokens then Some (context_parts, current_tokens)
          else context_loop max_tokens rest
                 (context_parts @ [context_part result], current_tokens + chunk_tokens))"

definition blank_line :: string where
  "blank_line = [newline, newline]"

text \<open>The context built from the results of \<open>search\<close>; an exception gives \<open>""\<close>.\<close>

definition context_of_results :: "int \<Rightarrow> search_result list \<Rightarrow> string" where
  "context_of_results max_tokens results =
     (if results = [] then []
      else
        (case context_loop max_tokens results ([], 0) of
           None \<Rightarrow> []
         | Some (context_parts, current_tokens) \<Rightarrow> join blank_line context_parts))"

definition get_relevant_context :: "weaviate \<Rightarrow> string \<Rightarrow> int \<Rightarrow> string option \<Rightarrow> string" where
  "get_relevant_context wv query max_tokens filename =
     context_of_results max_tokens (search wv query 20 filename)"

text \<open>The token count of a result that has one.\<close>

definition tokens_of :: "search_result \<Rightarrow> int" where
  "tokens_of r = (case result_tokens r of Some n \<Rightarrow> n | None \<Rightarrow> 0)"

text \<open>
  The number of leading candidates that are taken: counting stops at the first candidate
  that would push the running total over the budget.
\<close>

fun budget_prefix :: "int \<Rightarrow> int \<Rightarrow> search_result list \<Rightarrow> nat" where
  "budget_prefix max_tokens current [] = 0"
| "budget_prefix max_tokens current (r # rs) =
     (if current + tokens_of r > max_tokens then 0
      else Suc (budget_prefix max_tokens (current + tokens_of r) rs))"

section \<open>ChatService\<close>

record chat_service =
  pdf_context :: "string option"
  use_rag :: bool
  current_filename :: "string option"

definition set_pdf_context ::
  "weaviate \<Rightarrow> chat_service \<Rightarrow> string \<Rightarrow> PDFChunk list option \<Rightarrow> string \<Rightarrow> chat_service" where
  "set_pdf_context wv self0 pdf_text chunks filename =
     (let self = self0\<lparr>pdf_context := Some pdf_text, current_filename := Some filename\<rparr>
      in case chunks of
           None \<Rightarrow> self\<lparr>use_rag := False\<rparr>
         | Some cs \<Rightarrow>
             if cs \<noteq> [] \<and> length cs > 5 then
               (if create_embeddings wv cs filename then self\<lparr>use_rag := True\<rparr>
                else self\<lparr>use_rag := False\<rparr>)
             else self\<lparr>use_rag := False\<rparr>)"

definition base_prompt :: string where
  "base_prompt =
      ''You are a helpful AI assistant that can answer questions about PDF documents. \<newline>'' @
      ''        You should provide accurate, helpful, and concise responses based on the information available in the PDF.\<newline>'' @
      ''        \<newline>'' @
      ''        Guidelines:\<newline>'' @
      ''        - Only answer questions based on the information provided in the PDF\<newline>'' @
      ''        - If the information is not available in the PDF, clearly state that\<newline>'' @
      ''        - Be helpful and conversational in your responses\<newline>'' @
      ''        - Provide specific references when possible (mention page numbers if available)\<newline>'' @
      ''        - Keep responses concise but informative\<newline>'' @
      ''        - If you're referencing specific content, cite the page number\<newline>'' @
      ''        ''"

definition preview_note :: string where
  "preview_note =
     [newline, newline] @
     ''[Note: This is a preview of the PDF content. The full document contains more information.]''"

definition create_system_prompt :: "chat_service \<Rightarrow> string \<Rightarrow> string" where
  "create_system_prompt self relevant_context =
     (if relevant_context \<noteq> [] then
        base_prompt @ [newline, newline] @ ''Relevant PDF Content:'' @ [newline] @ relevant_context
      else
        (case pdf_context self of
           Some pdf_text \<Rightarrow>
             if pdf_text \<noteq> [] \<and> \<not> use_rag self then
               (let context_preview = take 4000 pdf_text;
                    prompt = base_prompt @ [newline, newline] @ ''PDF Content:'' @ [newline] @
                             context_preview
                in if length pdf_text > 4000 then prompt @ preview_note else prompt)
             else base_prompt
         | None \<Rightarrow> base_prompt))"

text \<open>
  \<open>ChatMessage\<close> (its time stamp left out), the messages sent to the model as
  \<open>(role, content)\<close> pairs, and the language model: an external call that either raises
  (\<open>Inl\<close> the text of the exception, also for a reply the code cannot read) or returns
  the reply text and, when given, the total token usage.
\<close>

record ChatMessage =
  role :: string
  msg_content :: string

type_synonym api_message = "string \<times> string"

type_synonym llm = "api_message list \<Rightarrow> string + (string \<times> int option)"

record chat_result =
  response :: string
  conversation_history :: "ChatMessage list"
  tokens_used :: int
  rag_used :: bool

text \<open>The first part of \<open>chat\<close>: the context handed to \<open>create_system_prompt\<close>.\<close>

definition chat_relevant_context :: "weaviate \<Rightarrow> chat_service \<Rightarrow> string \<Rightarrow> string" where
  "chat_relevant_context wv self message =
     (if use_rag self then get_relevant_context wv message 5000 (current_filename self)
      else
        (case pdf_context self of
           Some pdf_text \<Rightarrow> if pdf_text \<noteq> [] then take 5000 pdf_text else []
         | None \<Rightarrow> []))"

text \<open>The messages \<open>chat\<close> sends: system prompt, the last 8 turns, the new message.\<close>

definition chat_messages ::
  "weaviate \<Rightarrow> chat_service \<Rightarrow> string \<Rightarrow> ChatMessage list option \<Rightarrow> api_message list" where
  "chat_messages wv self message history =
     (let relevant_context = chat_relevant_context wv self message;
          system_prompt = create_system_prompt self relevant_context;
          messages = [(''system'', system_prompt)];
          messages =
            (case history of
               None \<Rightarrow> messages
             | Some h \<Rightarrow> messages @ map (\<lambda>msg. (role msg, msg_content msg)) (drop (length h - 8) h))
      in messages @ [(''user'', message)])"

text \<open>
  \<open>chat\<close>. The result has three parts: the service afterwards (\<open>chat\<close> assigns no
  attribute of \<open>self\<close>), the caller's history list afterwards, and the outcome: the
  \<open>ValueError\<close> raised or the dictionary returned. \<open>updated_history =
  conversation_history or []\<close> is the caller's own list when that list is not empty, so
  \<open>extend\<close> then changes it in place; for \<open>None\<close> and for an empty list it is a new
  list.
\<close>

definition chat ::
  "weaviate \<Rightarrow> llm \<Rightarrow> chat_service \<Rightarrow> string \<Rightarrow> ChatMessage list option \<Rightarrow>
     chat_service \<times> ChatMessage list option \<times> (error + chat_result)" where
  "chat wv generate self message history =
     (let messages = chat_messages wv self message history
      in case generate messages of
           Inl e \<Rightarrow> (self, history, Inl (ValueError (''Failed to process chat message: '' @ e)))
         | Inr (ai_response, usage) \<Rightarrow>
             (let tokens = (case usage of Some n \<Rightarrow> n | None \<Rightarrow> 0);
                  updated_history =
                    (case history of None \<Rightarrow> [] | Some h \<Rightarrow> h) @
                    [\<lparr>role = ''user'', msg_content = message\<rparr>,
                     \<lparr>role = ''assistant'', msg_content = ai_response\<rparr>];
                  history_after =
                    (case history of
                       None \<Rightarrow> None
                     | Some h \<Rightarrow> if h \<noteq> [] then Some updated_history else Some h)
              in (self, history_after,
                  Inr \<lparr>response = ai_response,
                       conversation_history = updated_history,
                       tokens_used = tokens,
                       rag_used = use_rag self\<rparr>)))"

text \<open>A run of chat requests on one service, each with its own model and history.\<close>

fun chat_run ::
  "weaviate \<Rightarrow> chat_service \<Rightarrow> (llm \<times> string \<times> ChatMessage list option) list \<Rightarrow> chat_service" where
  "chat_run wv self [] = self"
| "chat_run wv self ((generate, message, history) # rest) =
     chat_run wv (fst (chat wv generate self message history)) rest"

section \<open>Example data\<close>

text \<open>Three candidates of 20 tokens each, and a store that answers every query with them.\<close>

definition example_results :: "search_result list" where
  "example_results =
     [\<lparr>result_content = ''aa'', result_page_number = 1, result_chunk_index = 0,
       result_filename = ''f.pdf'', result_tokens = Some 20\<rparr>,
      \<lparr>result_content = ''bb'', result_page_number = 2, result_chunk_index = 0,
       result_filename = ''f.pdf'', result_tokens = Some 20\<rparr>,
      \<lparr>result_content = ''cc'', result_page_number = 3, result_chunk_index = 0,
       result_filename = ''f.pdf'', result_tokens = Some 20\<rparr>]"

definition example_weaviate :: weaviate where
  "example_weaviate =
     \<lparr>collection_get_ok = True,
      insert_many_ok = (\<lambda>batch. True),
      near_text = (\<lambda>query limit. Some example_results)\<rparr>"

text \<open>A service with no document, six one-sentence chunks, and two language models.\<close>

definition example_service :: chat_service where
  "example_service = \<lparr>pdf_context = None, use_rag = False, current_filename = None\<rparr>"

definition example_chunks :: "PDFChunk list" where
  "example_chunks = map (\<lambda>i. make_chunk 0 (int i) [''Aaa.''] 1) [0 ..< 6]"

definition failing_model :: llm where
  "failing_model = (\<lambda>messages. Inl ''timeout'')"

definition answering_model :: llm where
  "answering_model = (\<lambda>messages. Inr (''Hello'', Some 42))"

text \<open>
  A store with no results, and a three-character document loaded once in retrieval mode
  and once in full-context mode.
\<close>

definition empty_weaviate :: weaviate where
  "empty_weaviate =
     \<lparr>collection_get_ok = True,
      insert_many_ok = (\<lambda>batch. True),
      near_text = (\<lambda>query limit. Some [])\<rparr>"

definition retrieval_service :: chat_service where
  "retrieval_service =
     \<lparr>pdf_context = Some ''ZZZ'', use_rag = True, current_filename = Some ''f.pdf''\<rparr>"

definition full_context_service :: chat_service where
  "full_context_service =
     \<lparr>pdf_context = Some ''ZZZ'', use_rag = False, current_filename = Some ''f.pdf''\<rparr>"

section \<open>Properties of the file name sanitiser\<close>

lemma replace_char_removes: "old \<noteq> new \<Longrightarrow> old \<notin> set (replace_char old new s)"
  by (auto simp: replace_char_def)

lemma replace_char_keeps_out:
  "c \<notin> set s \<Longrightarrow> c \<noteq> new \<Longrightarrow> c \<notin> set (replace_char old new s)"
  by (auto simp: replace_char_def)

lemma replace_all_keeps_out:
  "c \<notin> set s \<Longrightarrow> c \<noteq> CHR ''_'' \<Longrightarrow> c \<notin> set (replace_all chars s)"
  by (induction chars arbitrary: s) (auto simp: replace_char_keeps_out)

lemma replace_all_removes:
  "c \<in> set chars \<Longrightarrow> c \<noteq> CHR ''_'' \<Longrightarrow> c \<notin> set (replace_all chars s)"
proof (induction chars arbitrary: s)
  case Nil
  then show ?case by simp
next
  case (Cons a chars)
  show ?case
  proof (cases "c = a")
    case True
    then have "c \<notin> set (replace_char a CHR ''_'' s)"
      using Cons.prems(2) by (simp add: replace_char_removes)
    then show ?thesis using Cons.prems(2) by (simp add: replace_all_keeps_out)
  next
    case False
    then show ?thesis using Cons by simp
  qed
qed

lemma sanitize_filename_no_dangerous:
  assumes "c \<in> set dangerous_chars"
  shows "c \<notin> set (sanitize_filename f)"
proof -
  have ne: "c \<noteq> CHR ''_''" using assms by (auto simp: dangerous_chars_def)
  have a: "c \<notin> set (replace_all dangerous_chars (basename f))"
    using assms ne by (rule replace_all_removes)
  have b: "c \<notin> set ''.pdf''" using assms by (auto simp: dangerous_chars_def)
  show ?thesis using a b by (simp add: sanitize_filename_def Let_def)
qed




lemma basename_of_joined:
  assumes "CHR ''/'' \<notin> set s"
  shows "basename (d @ ''/'' @ s) = s"
proof -
  have "takeWhile (\<lambda>c. c \<noteq> CHR ''/'') (rev s @ CHR ''/'' # rev d) = rev s"
    using assms by (subst takeWhile_append2) auto
  then show ?thesis by (simp add: basename_def)
qed

lemma basename_plain:
  assumes "CHR ''/'' \<notin> set s"
  shows "basename s = s"
proof -
  have "takeWhile (\<lambda>c. c \<noteq> CHR ''/'') (rev s) = rev s"
    using assms by auto
  then show ?thesis by (simp only: basename_def rev_rev_ident)
qed

lemma basename_path_join:
  assumes "CHR ''/'' \<notin> set name"
  shows "basename (path_join upload_dir name) = name"
proof (cases "upload_dir = ''.''")
  case True
  then show ?thesis using assms by (simp add: path_join_def basename_plain)
next
  case False
  show ?thesis
  proof (cases "upload_dir \<noteq> [] \<and> last upload_dir = CHR ''/''")
    case True
    then have "upload_dir = butlast upload_dir @ ''/''"
      by (metis append_butlast_last_id)
    then have eq: "path_join upload_dir name = butlast upload_dir @ ''/'' @ name"
      using True False by (simp add: path_join_def)
    have "basename (butlast upload_dir @ ''/'' @ name) = name"
      using assms by (rule basename_of_joined)
    then show ?thesis by (simp only: eq)
  next
    case slash: False
    then have eq: "path_join upload_dir name = upload_dir @ ''/'' @ name"
      using False by (auto simp: path_join_def)
    have "basename (upload_dir @ ''/'' @ name) = name"
      using assms by (rule basename_of_joined)
    then show ?thesis by (simp only: eq)
  qed
qed

lemma save_pdf_written:
  assumes "save_pdf write_file upload_dir filename = Inr file_path"
  shows "file_path = save_pdf_path upload_dir filename"
    and "basename file_path = sanitize_filename filename"
proof -
  from assms show p: "file_path = save_pdf_path upload_dir filename"
    by (auto simp: save_pdf_def save_pdf_path_def Let_def split: option.splits)
  have "CHR ''/'' \<notin> set (sanitize_filename filename)"
    by (rule sanitize_filename_no_dangerous) (simp add: dangerous_chars_def)
  then show "basename file_path = sanitize_filename filename"
    unfolding p save_pdf_path_def by (rule basename_path_join)
qed


section \<open>Properties of the chunker\<close>

lemma buffer_loop_Cons:
  "buffer_loop tk m (s # ss) st = buffer_loop tk m ss (buffer_step tk m s st)"
  by (cases st) (simp add: buffer_step_def Let_def)

lemma buffer_step_close:
  "toks + count_tokens tk s > m \<Longrightarrow> cur \<noteq> [] \<Longrightarrow>
   buffer_step tk m s (closed, cur, toks) =
     (closed @ [(cur, toks)], overlap_sentences cur @ [s],
      sum_list (map (count_tokens tk) (overlap_sentences cur @ [s])))"
  by (simp add: buffer_step_def)

lemma buffer_step_extend:
  "\<not> (toks + count_tokens tk s > m \<and> cur \<noteq> []) \<Longrightarrow>
   buffer_step tk m s (closed, cur, toks) = (closed, cur @ [s], toks + count_tokens tk s)"
  by (simp add: buffer_step_def)

lemma overlap_sentences_length: "length (overlap_sentences b) \<le> length b"
  by (simp add: overlap_sentences_def)

lemma overlap_sentences_suffix: "suffix (overlap_sentences b) b"
  by (simp add: overlap_sentences_def suffix_drop)

lemma overlap_sentences_Nil [simp]: "overlap_sentences [] = []"
  by (simp add: overlap_sentences_def)

lemma overlap_sentences_last_two: "overlap_sentences b = drop (length b - 2) b"
  by (simp add: overlap_sentences_def)

lemma length_overlap_sentences: "length (overlap_sentences b) = min 2 (length b)"
  by (simp add: overlap_sentences_def)

lemma seeded_snoc: "seeded p b \<Longrightarrow> seeded p (b @ [s])"
proof -
  assume "seeded p b"
  then obtain rest where "rest \<noteq> []" "b = overlap_sentences p @ rest"
    unfolding seeded_def by blast
  then have "rest @ [s] \<noteq> [] \<and> b @ [s] = overlap_sentences p @ (rest @ [s])" by simp
  then show ?thesis unfolding seeded_def by blast
qed

lemma seeded_overlap: "seeded b (overlap_sentences b @ [s])"
  unfolding seeded_def by (rule exI [of _ "[s]"]) simp

lemma seeded_length: "seeded p b \<Longrightarrow> length (overlap_sentences p) \<le> length b"
  unfolding seeded_def by (elim exE conjE) simp

lemma without_overlaps_snoc:
  "without_overlaps p (bs @ [b]) = without_overlaps p bs @ new_sentences (last (p # bs)) b"
  by (induction bs arbitrary: p) auto

lemma new_sentences_snoc:
  "length (overlap_sentences p) \<le> length b \<Longrightarrow> new_sentences p (b @ [s]) = new_sentences p b @ [s]"
  by (simp add: new_sentences_def length_overlap_sentences)

lemma new_sentences_overlap: "new_sentences b (overlap_sentences b @ [s]) = [s]"
  by (simp add: new_sentences_def flip: length_overlap_sentences)

lemma inv_link_step: "inv_link st \<Longrightarrow> inv_link (buffer_step tk m s st)"
proof (cases st)
  case (fields closed cur toks)
  assume inv: "inv_link st"
  show ?thesis
  proof (cases "toks + count_tokens tk s > m \<and> cur \<noteq> []")
    case True
    then have "buffer_step tk m s st = (closed @ [(cur, toks)], overlap_sentences cur @ [s],
      sum_list (map (count_tokens tk) (overlap_sentences cur @ [s])))"
      unfolding fields by (simp add: buffer_step_close)
    moreover have "successively seeded ((map fst closed @ [cur]) @ [overlap_sentences cur @ [s]])"
      using inv unfolding inv_link_def fields
      by (subst successively_append_iff) (simp add: seeded_overlap)
    ultimately show ?thesis by (simp add: inv_link_def)
  next
    case False
    then have "buffer_step tk m s st = (closed, cur @ [s], toks + count_tokens tk s)"
      unfolding fields by (rule buffer_step_extend)
    moreover have "successively seeded (map fst closed @ [cur @ [s]])"
      using inv unfolding inv_link_def fields
      by (auto simp: successively_append_iff seeded_snoc)
    ultimately show ?thesis by (simp add: inv_link_def)
  qed
qed

lemma inv_within_step: "inv_within tk m st \<Longrightarrow> inv_within tk m (buffer_step tk m s st)"
proof (cases st)
  case (fields closed cur toks)
  assume inv: "inv_within tk m st"
  then have inv': "successively (within tk m) ((([], 0) # closed) @ [(cur, toks)])"
    and emp: "cur = [] \<longrightarrow> closed = []"
    by (simp_all add: inv_within_def fields)
  then have pre: "successively (within tk m) (([], 0) # closed)"
    and cur: "within tk m (last (([], 0) # closed)) (cur, toks)"
    by (simp_all add: successively_append_iff del: append_Cons)
  show ?thesis
  proof (cases "toks + count_tokens tk s > m \<and> cur \<noteq> []")
    case True
    then have "buffer_step tk m s st = (closed @ [(cur, toks)], overlap_sentences cur @ [s],
      sum_list (map (count_tokens tk) (overlap_sentences cur @ [s])))"
      unfolding fields by (simp add: buffer_step_close)
    moreover have "within tk m (cur, toks) (overlap_sentences cur @ [s],
      sum_list (map (count_tokens tk) (overlap_sentences cur @ [s])))"
      by (simp add: within_def)
    then have "successively (within tk m) (((([], 0) # closed) @ [(cur, toks)]) @
      [(overlap_sentences cur @ [s], sum_list (map (count_tokens tk) (overlap_sentences cur @ [s])))])"
      using inv' by (subst successively_append_iff) simp
    ultimately show ?thesis using True by (simp add: inv_within_def)
  next
    case False
    then have "buffer_step tk m s st = (closed, cur @ [s], toks + count_tokens tk s)"
      unfolding fields by (rule buffer_step_extend)
    moreover have "within tk m (last (([], 0) # closed)) (cur @ [s], toks + count_tokens tk s)"
    proof (cases "cur = []")
      case True
      with cur emp show ?thesis by (simp add: within_def)
    next
      case ne: False
      with False have "toks + count_tokens tk s \<le> m" by simp
      with cur show ?thesis by (simp add: within_def)
    qed
    then have "successively (within tk m) ((([], 0) # closed) @ [(cur @ [s], toks + count_tokens tk s)])"
      using pre by (subst successively_append_iff) simp
    ultimately show ?thesis by (simp add: inv_within_def)
  qed
qed

lemma inv_cover_step:
  assumes "inv_link st" and "inv_cover seen st"
  shows "inv_cover (seen @ [s]) (buffer_step tk m s st)"
proof (cases st)
  case (fields closed cur toks)
  from assms(2) have cov: "without_overlaps [] (map fst closed @ [cur]) = seen"
    by (simp add: inv_cover_def fields)
  show ?thesis
  proof (cases "toks + count_tokens tk s > m \<and> cur \<noteq> []")
    case True
    then have "buffer_step tk m s st = (closed @ [(cur, toks)], overlap_sentences cur @ [s],
      sum_list (map (count_tokens tk) (overlap_sentences cur @ [s])))"
      unfolding fields by (simp add: buffer_step_close)
    moreover have "without_overlaps [] ((map fst closed @ [cur]) @ [overlap_sentences cur @ [s]])
        = seen @ [s]"
      by (subst without_overlaps_snoc) (simp add: cov new_sentences_overlap)
    ultimately show ?thesis by (simp add: inv_cover_def)
  next
    case False
    then have step: "buffer_step tk m s st = (closed, cur @ [s], toks + count_tokens tk s)"
      unfolding fields by (rule buffer_step_extend)
    have len: "length (overlap_sentences (last ([] # map fst closed))) \<le> length cur"
    proof (cases "closed = []")
      case True
      then show ?thesis by simp
    next
      case False
      with assms(1) have "seeded (last (map fst closed)) cur"
        by (simp add: inv_link_def fields successively_append_iff)
      then show ?thesis using False by (simp add: seeded_length)
    qed
    have "without_overlaps [] (map fst closed @ [cur @ [s]]) =
        without_overlaps [] (map fst closed) @ new_sentences (last ([] # map fst closed)) cur @ [s]"
      by (subst without_overlaps_snoc) (simp only: new_sentences_snoc [OF len])
    also have "\<dots> = without_overlaps [] (map fst closed @ [cur]) @ [s]"
      by (subst without_overlaps_snoc) simp
    finally show ?thesis by (simp add: inv_cover_def step cov)
  qed
qed

lemma sublist_snoc: "sublist b d \<Longrightarrow> sublist b (d @ [s])"
  by (metis sublist_appendI append_Nil sublist_order.order.trans sublist_append_rightI)

lemma inv_sub_step:
  assumes "inv_sub seen st"
  shows "inv_sub (seen @ [s]) (buffer_step tk m s st)"
proof (cases st)
  case (fields closed cur toks)
  from assms have cl: "\<forall>b \<in> set closed. fst b \<noteq> [] \<and> sublist (fst b) seen"
    and su: "suffix cur seen"
    by (simp_all add: inv_sub_def fields)
  from cl have cl': "\<forall>b \<in> set closed. fst b \<noteq> [] \<and> sublist (fst b) (seen @ [s])"
    by (simp add: sublist_snoc)
  show ?thesis
  proof (cases "toks + count_tokens tk s > m \<and> cur \<noteq> []")
    case True
    then have step: "buffer_step tk m s st = (closed @ [(cur, toks)], overlap_sentences cur @ [s],
      sum_list (map (count_tokens tk) (overlap_sentences cur @ [s])))"
      unfolding fields by (simp add: buffer_step_close)
    have "sublist cur (seen @ [s])"
      using su by (simp add: suffix_imp_sublist sublist_snoc)
    moreover have "suffix (overlap_sentences cur) seen"
      using overlap_sentences_suffix su by (rule suffix_order.trans)
    then have "suffix (overlap_sentences cur @ [s]) (seen @ [s])" by simp
    ultimately show ?thesis using cl' True by (simp add: inv_sub_def step)
  next
    case False
    then have step: "buffer_step tk m s st = (closed, cur @ [s], toks + count_tokens tk s)"
      unfolding fields by (rule buffer_step_extend)
    show ?thesis using cl' su by (simp add: inv_sub_def step)
  qed
qed

lemma buf_inv_init: "buf_inv tk m [] ([], [], 0)"
  by (simp add: buf_inv_def inv_link_def inv_within_def inv_cover_def inv_sub_def
      within_def new_sentences_def)

lemma buf_inv_step: "buf_inv tk m seen st \<Longrightarrow> buf_inv tk m (seen @ [s]) (buffer_step tk m s st)"
  unfolding buf_inv_def
  using inv_link_step inv_within_step inv_cover_step inv_sub_step by blast

lemma buf_inv_loop:
  "buf_inv tk m seen st \<Longrightarrow> buf_inv tk m (seen @ ss) (buffer_loop tk m ss st)"
proof (induction ss arbitrary: seen st)
  case Nil
  then show ?case by simp
next
  case (Cons s ss)
  from Cons.prems have "buf_inv tk m (seen @ [s]) (buffer_step tk m s st)"
    by (rule buf_inv_step)
  then have "buf_inv tk m ((seen @ [s]) @ ss) (buffer_loop tk m ss (buffer_step tk m s st))"
    by (rule Cons.IH)
  then show ?case by (simp add: buffer_loop_Cons)
qed

lemma chunks_of_buffers_snoc:
  "chunks_of_buffers page (closed @ [(b, t)]) =
     chunks_of_buffers page closed @ [make_chunk page (int (length closed)) b t]"
  by (simp add: chunks_of_buffers_def enumerate_append_eq)

lemma chunk_loop_buffers:
  "chunk_loop tk page m ss (chunks_of_buffers page closed, cur, toks, int (length closed)) =
     (case buffer_loop tk m ss (closed, cur, toks) of
        (closed', cur', toks') \<Rightarrow>
          (chunks_of_buffers page closed', cur', toks', int (length closed')))"
proof (induction ss arbitrary: closed cur toks)
  case Nil
  then show ?case by simp
next
  case (Cons s ss)
  show ?case
  proof (cases "toks + count_tokens tk s > m \<and> cur \<noteq> []")
    case True
    have "int (length closed) + 1 = int (length (closed @ [(cur, toks)]))" by simp
    then show ?thesis
      using True Cons.IH [of "closed @ [(cur, toks)]"]
      by (simp add: Let_def chunks_of_buffers_snoc del: length_append)
  next
    case False
    then show ?thesis using Cons.IH [of closed] by (auto simp add: Let_def)
  qed
qed

lemma create_chunks_from_buffers:
  "create_chunks tk text page m = chunks_of_buffers page (chunk_buffers tk text m)"
proof (cases "buffer_loop tk m (split_into_sentences text) ([], [], 0)")
  case (fields closed cur toks)
  have "chunk_loop tk page m (split_into_sentences text) ([], [], 0, 0) =
      (chunks_of_buffers page closed, cur, toks, int (length closed))"
    using chunk_loop_buffers [of tk page m "split_into_sentences text" "[]" "[]" 0]
    by (simp add: fields chunks_of_buffers_def)
  then show ?thesis
    by (simp add: create_chunks_def chunk_buffers_def fields chunks_of_buffers_snoc)
       (simp add: chunks_of_buffers_def)
qed

lemma length_chunks_of_buffers [simp]: "length (chunks_of_buffers page bufs) = length bufs"
  by (simp add: chunks_of_buffers_def)

lemma nth_chunks_of_buffers:
  "i < length bufs \<Longrightarrow>
   chunks_of_buffers page bufs ! i = make_chunk page (int i) (fst (bufs ! i)) (snd (bufs ! i))"
  by (simp add: chunks_of_buffers_def nth_enumerate_eq split_beta)

lemma recorded_tokens_make_chunk [simp]: "recorded_tokens (make_chunk page i b t) = t"
  by (simp add: recorded_tokens_def make_chunk_def)

lemma content_make_chunk [simp]: "content (make_chunk page i b t) = join '' '' b"
  by (simp add: make_chunk_def)

lemma strip_empty_iff: "strip s = [] \<longleftrightarrow> (\<forall>c \<in> set s. is_space c)"
proof
  assume "strip s = []"
  then have "\<forall>x \<in> set (dropWhile is_space s). is_space x"
    by (simp add: strip_def dropWhile_eq_Nil_conv)
  then have "dropWhile is_space s = []"
    using hd_dropWhile [of is_space s] by (metis hd_in_set)
  then show "\<forall>c \<in> set s. is_space c" by (simp add: dropWhile_eq_Nil_conv)
next
  assume "\<forall>c \<in> set s. is_space c"
  then have "dropWhile is_space s = []" by (simp add: dropWhile_eq_Nil_conv)
  then show "strip s = []" by (simp only: strip_def rev.simps dropWhile.simps)
qed

lemma re_split_sentences_chars:
  "p \<in> set (re_split_sentences piece t) \<Longrightarrow> set p \<subseteq> set piece \<union> set t"
proof (induction piece t arbitrary: p rule: re_split_sentences.induct)
  case (1 piece)
  then show ?case by simp
next
  case (2 piece c cs)
  show ?case
  proof (cases "piece \<noteq> [] \<and> sentence_end (last piece) \<and> is_space c")
    case True
    with "2.prems" have "p = piece \<or> p \<in> set (re_split_sentences [] (dropWhile is_space cs))"
      by simp
    then show ?thesis
    proof
      assume "p = piece"
      then show ?thesis by auto
    next
      assume "p \<in> set (re_split_sentences [] (dropWhile is_space cs))"
      then have "set p \<subseteq> set [] \<union> set (dropWhile is_space cs)"
        using "2.IH"(1) True by blast
      then show ?thesis using set_dropWhileD by fastforce
    qed
  next
    case False
    with "2.prems" have "p \<in> set (re_split_sentences (piece @ [c]) cs)"
      by (simp split: if_splits)
    then have "set p \<subseteq> set (piece @ [c]) \<union> set cs"
      using "2.IH"(2) False by blast
    then show ?thesis by auto
  qed
qed

lemma split_into_sentences_blank:
  assumes "strip text = []"
  shows "split_into_sentences text = []"
proof -
  have "strip p = []" if "p \<in> set (re_split_sentences [] text)" for p
  proof -
    from that have "set p \<subseteq> set text" using re_split_sentences_chars by fastforce
    with assms show ?thesis unfolding strip_empty_iff by blast
  qed
  then have "filter (\<lambda>s. strip s \<noteq> []) (re_split_sentences [] text) = []"
    by (simp add: filter_empty_conv)
  then show ?thesis by (simp add: split_into_sentences_def)
qed

lemma chunk_buffers_cases:
  "(chunk_buffers tk page_text m = [] \<and> split_into_sentences page_text = []) \<or>
   (\<exists>st. chunk_buffers tk page_text m = all_buffers st \<and> fst (snd st) \<noteq> [] \<and>
         buf_inv tk m (split_into_sentences page_text) st)"
proof (cases "strip page_text = []")
  case True
  then show ?thesis by (simp add: chunk_buffers_def split_into_sentences_blank)
next
  case False
  let ?st = "buffer_loop tk m (split_into_sentences page_text) ([], [], 0)"
  have inv: "buf_inv tk m (split_into_sentences page_text) ?st"
    using buf_inv_loop [OF buf_inv_init, of tk m "split_into_sentences page_text"] by simp
  obtain closed cur toks where st: "?st = (closed, cur, toks)" by (cases ?st)
  show ?thesis
  proof (cases "cur = []")
    case True
    with inv have "closed = []" by (simp add: buf_inv_def inv_within_def st)
    with inv True have "split_into_sentences page_text = []"
      by (simp add: buf_inv_def inv_cover_def st new_sentences_def)
    moreover have "chunk_buffers tk page_text m = []"
      using False True \<open>closed = []\<close> by (simp add: chunk_buffers_def st)
    ultimately show ?thesis by simp
  next
    case ne: False
    then have "chunk_buffers tk page_text m = all_buffers ?st"
      using False by (simp add: chunk_buffers_def st)
    with inv ne show ?thesis using st by (metis fst_conv snd_conv)
  qed
qed

lemma join_append:
  "xs \<noteq> [] \<Longrightarrow> ys \<noteq> [] \<Longrightarrow> join sep (xs @ ys) = join sep xs @ sep @ join sep ys"
proof (induction sep xs rule: join.induct)
  case (1 sep)
  then show ?case by simp
next
  case (2 sep x)
  then show ?case by (cases ys) simp_all
next
  case (3 sep x y ys')
  then show ?case by simp
qed

lemma overlap_sentences_nonempty: "b \<noteq> [] \<Longrightarrow> overlap_sentences b \<noteq> []"
  by (cases b) (auto simp: overlap_sentences_def)

lemma buffers_seeded:
  assumes "Suc i < length (chunk_buffers tk page_text m)"
  shows "seeded (fst (chunk_buffers tk page_text m ! i)) (fst (chunk_buffers tk page_text m ! Suc i))"
proof -
  from assms chunk_buffers_cases [of tk page_text m]
  obtain st where bs: "chunk_buffers tk page_text m = all_buffers st"
    and inv: "buf_inv tk m (split_into_sentences page_text) st"
    by auto
  from inv have "successively seeded (map fst (chunk_buffers tk page_text m))"
    by (simp add: buf_inv_def inv_link_def bs)
  then show ?thesis
    using assms successively_nth [of seeded "map fst (chunk_buffers tk page_text m)" i] by simp
qed

lemma buffers_nonempty:
  assumes "i < length (chunk_buffers tk page_text m)"
  shows "fst (chunk_buffers tk page_text m ! i) \<noteq> []"
proof -
  from assms chunk_buffers_cases [of tk page_text m]
  obtain st where bs: "chunk_buffers tk page_text m = all_buffers st"
    and ne: "fst (snd st) \<noteq> []"
    and inv: "buf_inv tk m (split_into_sentences page_text) st"
    by auto
  obtain closed cur toks where st: "st = (closed, cur, toks)" by (cases st)
  from inv have cl: "\<forall>b \<in> set closed. fst b \<noteq> []"
    by (simp add: buf_inv_def inv_sub_def st)
  show ?thesis
  proof (cases "i < length closed")
    case True
    then show ?thesis using cl by (simp add: bs st nth_append)
  next
    case False
    with assms have "i = length closed" by (simp add: bs st)
    then show ?thesis using ne by (simp add: bs st)
  qed
qed

lemma buffers_sublist:
  assumes "i < length (chunk_buffers tk page_text m)"
  shows "sublist (fst (chunk_buffers tk page_text m ! i)) (split_into_sentences page_text)"
proof -
  from assms chunk_buffers_cases [of tk page_text m]
  obtain st where bs: "chunk_buffers tk page_text m = all_buffers st"
    and inv: "buf_inv tk m (split_into_sentences page_text) st"
    by auto
  obtain closed cur toks where st: "st = (closed, cur, toks)" by (cases st)
  from inv have cl: "\<forall>b \<in> set closed. sublist (fst b) (split_into_sentences page_text)"
    and su: "suffix cur (split_into_sentences page_text)"
    by (simp_all add: buf_inv_def inv_sub_def st)
  show ?thesis
  proof (cases "i < length closed")
    case True
    then show ?thesis using cl by (simp add: bs st nth_append)
  next
    case False
    with assms have "i = length closed" by (simp add: bs st)
    then show ?thesis using su by (simp add: bs st)
  qed
qed

lemma buffers_within:
  assumes "i < length (chunk_buffers tk page_text m)"
  shows "within tk m (if i = 0 then ([], 0) else chunk_buffers tk page_text m ! (i - 1))
           (chunk_buffers tk page_text m ! i)"
proof -
  from assms chunk_buffers_cases [of tk page_text m]
  obtain st where bs: "chunk_buffers tk page_text m = all_buffers st"
    and inv: "buf_inv tk m (split_into_sentences page_text) st"
    by auto
  from inv have "successively (within tk m) (([], 0) # chunk_buffers tk page_text m)"
    by (simp add: buf_inv_def inv_within_def bs)
  then have "within tk m ((([], 0) # chunk_buffers tk page_text m) ! i)
      ((([], 0) # chunk_buffers tk page_text m) ! Suc i)"
    using assms successively_nth [of "within tk m" "([], 0) # chunk_buffers tk page_text m" i]
    by simp
  then show ?thesis by (cases i) simp_all
qed

lemma buffers_cover:
  "without_overlaps [] (map fst (chunk_buffers tk page_text m)) = split_into_sentences page_text"
  using chunk_buffers_cases [of tk page_text m]
  by (auto simp: buf_inv_def inv_cover_def)

text \<open>
  C1, as amended. The token count recorded in a chunk is the sum of the token counts of
  its sentences; the chunk's content is a run of whole, consecutive sentences of the page,
  joined with single spaces; and the recorded count is at most \<open>max_tokens\<close> unless the
  chunk is exactly the overlap carried over from the chunk before it (at most two
  sentences; none for the first chunk) and one more sentence.
\<close>

theorem chunk_token_bound:
  assumes "i < length (create_chunks tk page_text page max_tokens)"
  shows "recorded_tokens (create_chunks tk page_text page max_tokens ! i) =
           sum_list (map (count_tokens tk) (fst (chunk_buffers tk page_text max_tokens ! i)))
     \<and> content (create_chunks tk page_text page max_tokens ! i) =
           join '' '' (fst (chunk_buffers tk page_text max_tokens ! i))
     \<and> fst (chunk_buffers tk page_text max_tokens ! i) \<noteq> []
     \<and> sublist (fst (chunk_buffers tk page_text max_tokens ! i)) (split_into_sentences page_text)
     \<and> (recorded_tokens (create_chunks tk page_text page max_tokens ! i) \<le> max_tokens
        \<or> length (fst (chunk_buffers tk page_text max_tokens ! i)) =
            length (overlap_sentences
              (if i = 0 then [] else fst (chunk_buffers tk page_text max_tokens ! (i - 1)))) + 1)"
proof -
  let ?bs = "chunk_buffers tk page_text max_tokens"
  let ?cs = "create_chunks tk page_text page max_tokens"
  have cs: "?cs = chunks_of_buffers page ?bs" by (rule create_chunks_from_buffers)
  from assms have len: "i < length ?bs" by (simp add: cs)
  have tok: "recorded_tokens (?cs ! i) = snd (?bs ! i)"
    using len by (simp add: cs nth_chunks_of_buffers)
  have con: "content (?cs ! i) = join '' '' (fst (?bs ! i))"
    using len by (simp add: cs nth_chunks_of_buffers)
  have ne: "fst (?bs ! i) \<noteq> []" using len by (rule buffers_nonempty)
  have sub: "sublist (fst (?bs ! i)) (split_into_sentences page_text)"
    using len by (rule buffers_sublist)
  have w: "within tk max_tokens (if i = 0 then ([], 0) else ?bs ! (i - 1)) (?bs ! i)"
    using len by (rule buffers_within)
  from w have sum: "snd (?bs ! i) = sum_list (map (count_tokens tk) (fst (?bs ! i)))"
    by (simp add: within_def)
  from w ne have bound: "snd (?bs ! i) \<le> max_tokens \<or>
      length (fst (?bs ! i)) =
        length (overlap_sentences (if i = 0 then [] else fst (?bs ! (i - 1)))) + 1"
    by (cases "i = 0") (auto simp: within_def)
  from tok con ne sub sum bound show ?thesis by simp
qed

text \<open>An instance of the amended C1.\<close>

theorem chunk_token_bound_witness:
  "Suc 0 < length (create_chunks None ''Aaa. Bbb. Ccc.'' 0 2)
   \<and> recorded_tokens (create_chunks None ''Aaa. Bbb. Ccc.'' 0 2 ! Suc 0) = 3
   \<and> content (create_chunks None ''Aaa. Bbb. Ccc.'' 0 2 ! Suc 0) = ''Aaa. Bbb. Ccc.''
   \<and> sublist [''Aaa.'', ''Bbb.'', ''Ccc.''] (split_into_sentences ''Aaa. Bbb. Ccc.'')"
proof -
  have len: "Suc 0 < length (create_chunks None ''Aaa. Bbb. Ccc.'' 0 2)" by code_simp
  have b1: "fst (chunk_buffers None ''Aaa. Bbb. Ccc.'' 2 ! Suc 0) = [''Aaa.'', ''Bbb.'', ''Ccc.'']"
    by code_simp
  have c: "sum_list (map (count_tokens None) [''Aaa.'', ''Bbb.'', ''Ccc.'']) = 3"
    by code_simp
  have j: "join '' '' [''Aaa.'', ''Bbb.'', ''Ccc.''] = ''Aaa. Bbb. Ccc.''" by simp
  from chunk_token_bound [OF len] show ?thesis
    unfolding b1 c j using len by blast
qed

text \<open>
  C1 as stated fails: with the fallback counter (a quarter of the length) and a limit of
  2, three sentences of one token each give a second chunk that records 3 tokens, though
  no sentence exceeds the limit.
\<close>

theorem chunk_token_ceiling_counterexample:
  "clean_text ''Aaa. Bbb. Ccc.'' = ''Aaa. Bbb. Ccc.''
   \<and> split_into_sentences ''Aaa. Bbb. Ccc.'' = [''Aaa.'', ''Bbb.'', ''Ccc.'']
   \<and> map (count_tokens None) [''Aaa.'', ''Bbb.'', ''Ccc.''] = [1, 1, 1]
   \<and> map content (create_chunks None ''Aaa. Bbb. Ccc.'' 0 2) = [''Aaa. Bbb.'', ''Aaa. Bbb. Ccc.'']
   \<and> map recorded_tokens (create_chunks None ''Aaa. Bbb. Ccc.'' 0 2) = [2, 3]
   \<and> \<not> (3 :: int) \<le> 2"
  by code_simp

text \<open>
  C4. When the chunking of a page text emits chunks \<open>i\<close> and \<open>i + 1\<close>, the trailing
  sentences of chunk \<open>i\<close> (its last two, or all of them when it has fewer than two:
  \<open>min 2 n\<close> of its \<open>n\<close> sentences) are the leading sentences of chunk \<open>i + 1\<close>, which
  goes on with at least one more sentence; in the contents, the joined trailing sentences
  of chunk \<open>i\<close> come first in chunk \<open>i + 1\<close>, word for word. Both chunks carry the same
  page number.
\<close>

theorem chunk_overlap:
  assumes "Suc i < length (create_chunks tk page_text page max_tokens)"
  shows "\<exists>rest. rest \<noteq> []
     \<and> fst (chunk_buffers tk page_text max_tokens ! Suc i) =
         drop (length (fst (chunk_buffers tk page_text max_tokens ! i)) - 2)
           (fst (chunk_buffers tk page_text max_tokens ! i)) @ rest
     \<and> length (drop (length (fst (chunk_buffers tk page_text max_tokens ! i)) - 2)
           (fst (chunk_buffers tk page_text max_tokens ! i))) =
         min 2 (length (fst (chunk_buffers tk page_text max_tokens ! i)))
     \<and> drop (length (fst (chunk_buffers tk page_text max_tokens ! i)) - 2)
           (fst (chunk_buffers tk page_text max_tokens ! i)) \<noteq> []
     \<and> content (create_chunks tk page_text page max_tokens ! i) =
         join '' '' (fst (chunk_buffers tk page_text max_tokens ! i))
     \<and> content (create_chunks tk page_text page max_tokens ! Suc i) =
         join '' '' (drop (length (fst (chunk_buffers tk page_text max_tokens ! i)) - 2)
           (fst (chunk_buffers tk page_text max_tokens ! i))) @ '' '' @
         join '' '' rest
     \<and> page_number (create_chunks tk page_text page max_tokens ! Suc i) =
         page_number (create_chunks tk page_text page max_tokens ! i)"
proof -
  let ?bs = "chunk_buffers tk page_text max_tokens"
  let ?cs = "create_chunks tk page_text page max_tokens"
  let ?b = "fst (?bs ! i)"
  let ?last_two = "drop (length ?b - 2) ?b"
  have cs: "?cs = chunks_of_buffers page ?bs" by (rule create_chunks_from_buffers)
  have two: "overlap_sentences ?b = ?last_two" by (rule overlap_sentences_last_two)
  from assms have len: "Suc i < length ?bs" by (simp add: cs)
  then have "seeded ?b (fst (?bs ! Suc i))" by (rule buffers_seeded)
  then obtain rest where rest: "rest \<noteq> []"
    and eq: "fst (?bs ! Suc i) = ?last_two @ rest"
    unfolding seeded_def two by blast
  have n: "length ?last_two = min 2 (length ?b)"
    using length_overlap_sentences [of ?b] unfolding two .
  from len have "?b \<noteq> []" by (intro buffers_nonempty) simp
  then have "overlap_sentences ?b \<noteq> []" by (rule overlap_sentences_nonempty)
  then have ov: "?last_two \<noteq> []" unfolding two .
  have c0: "content (?cs ! i) = join '' '' ?b"
    using len by (simp add: cs nth_chunks_of_buffers)
  have "content (?cs ! Suc i) = join '' '' (fst (?bs ! Suc i))"
    using len by (simp add: cs nth_chunks_of_buffers)
  then have c1: "content (?cs ! Suc i) = join '' '' ?last_two @ '' '' @ join '' '' rest"
    by (simp only: eq join_append [OF ov rest])
  have pg: "page_number (?cs ! Suc i) = page_number (?cs ! i)"
    using len by (simp add: cs nth_chunks_of_buffers make_chunk_def)
  from rest eq n ov c0 c1 pg show ?thesis by blast
qed

text \<open>
  An instance of C4, on a first chunk of three sentences: its last two open the second
  chunk.
\<close>

theorem chunk_overlap_witness:
  "Suc 0 < length (create_chunks None ''Aaa. Bbb. Ccc. Ddd. Eee.'' 0 3)
   \<and> content (create_chunks None ''Aaa. Bbb. Ccc. Ddd. Eee.'' 0 3 ! 0) = ''Aaa. Bbb. Ccc.''
   \<and> content (create_chunks None ''Aaa. Bbb. Ccc. Ddd. Eee.'' 0 3 ! Suc 0) = ''Bbb. Ccc. Ddd.''
   \<and> (\<exists>rest. rest \<noteq> []
      \<and> fst (chunk_buffers None ''Aaa. Bbb. Ccc. Ddd. Eee.'' 3 ! Suc 0) = [''Bbb.'', ''Ccc.''] @ rest
      \<and> content (create_chunks None ''Aaa. Bbb. Ccc. Ddd. Eee.'' 0 3 ! Suc 0) =
          ''Bbb. Ccc.'' @ '' '' @ join '' '' rest)"
proof -
  have len: "Suc 0 < length (create_chunks None ''Aaa. Bbb. Ccc. Ddd. Eee.'' 0 3)" by code_simp
  have b0: "fst (chunk_buffers None ''Aaa. Bbb. Ccc. Ddd. Eee.'' 3 ! 0) = [''Aaa.'', ''Bbb.'', ''Ccc.'']"
    by code_simp
  have d: "drop (length [''Aaa.'', ''Bbb.'', ''Ccc.''] - 2) [''Aaa.'', ''Bbb.'', ''Ccc.''] =
      [''Bbb.'', ''Ccc.'']"
    by simp
  have j: "join '' '' [''Bbb.'', ''Ccc.''] = ''Bbb. Ccc.''" by simp
  have c0: "content (create_chunks None ''Aaa. Bbb. Ccc. Ddd. Eee.'' 0 3 ! 0) = ''Aaa. Bbb. Ccc.''" by code_simp
  have c1: "content (create_chunks None ''Aaa. Bbb. Ccc. Ddd. Eee.'' 0 3 ! Suc 0) = ''Bbb. Ccc. Ddd.''" by code_simp
  from chunk_overlap [OF len] have "\<exists>rest. rest \<noteq> []
      \<and> fst (chunk_buffers None ''Aaa. Bbb. Ccc. Ddd. Eee.'' 3 ! Suc 0) = [''Bbb.'', ''Ccc.''] @ rest
      \<and> content (create_chunks None ''Aaa. Bbb. Ccc. Ddd. Eee.'' 0 3 ! Suc 0) =
          ''Bbb. Ccc.'' @ '' '' @ join '' '' rest"
    unfolding b0 d j by blast
  with len c0 c1 show ?thesis by blast
qed

text \<open>
  C5. For every page text, the sentences of the sentence splitter are, in their order and
  with none dropped, what remains of the chunks' sentence buffers when each later chunk
  loses its overlap prefix: its first \<open>min 2 n\<close> sentences, where \<open>n\<close> is the number of
  sentences of the chunk before it. That prefix is made of the last two sentences of the
  chunk before (all of them when it has fewer than two). The content of each chunk is its
  buffer joined with single spaces.
\<close>

theorem chunk_coverage:
  "without_overlaps [] (map fst (chunk_buffers tk page_text max_tokens)) = split_into_sentences page_text
   \<and> map content (create_chunks tk page_text page max_tokens) =
       map (\<lambda>b. join '' '' (fst b)) (chunk_buffers tk page_text max_tokens)
   \<and> (\<forall>i. Suc i < length (chunk_buffers tk page_text max_tokens) \<longrightarrow>
         take (min 2 (length (fst (chunk_buffers tk page_text max_tokens ! i))))
           (fst (chunk_buffers tk page_text max_tokens ! Suc i)) =
         drop (length (fst (chunk_buffers tk page_text max_tokens ! i)) - 2)
           (fst (chunk_buffers tk page_text max_tokens ! i)))"
proof -
  let ?bs = "chunk_buffers tk page_text max_tokens"
  have 1: "without_overlaps [] (map fst ?bs) = split_into_sentences page_text"
    by (rule buffers_cover)
  have "map content (chunks_of_buffers page bufs) = map (\<lambda>b. join '' '' (fst b)) bufs" for bufs
    by (rule nth_equalityI) (simp_all add: nth_chunks_of_buffers)
  then have 2: "map content (create_chunks tk page_text page max_tokens) =
      map (\<lambda>b. join '' '' (fst b)) ?bs"
    by (simp add: create_chunks_from_buffers)
  have 3: "take (min 2 (length (fst (?bs ! i)))) (fst (?bs ! Suc i)) =
      drop (length (fst (?bs ! i)) - 2) (fst (?bs ! i))" if "Suc i < length ?bs" for i
  proof -
    let ?b = "fst (?bs ! i)"
    from that have "seeded ?b (fst (?bs ! Suc i))" by (rule buffers_seeded)
    then obtain rest where eq: "fst (?bs ! Suc i) = overlap_sentences ?b @ rest"
      unfolding seeded_def by blast
    have "take (length (overlap_sentences ?b)) (overlap_sentences ?b @ rest) = overlap_sentences ?b"
      by simp
    then have "take (min 2 (length ?b)) (fst (?bs ! Suc i)) = overlap_sentences ?b"
      unfolding eq length_overlap_sentences .
    then show ?thesis unfolding overlap_sentences_last_two .
  qed
  from 1 2 3 show ?thesis by blast
qed

text \<open>
  An instance of C5, with chunks of three sentences: each later chunk loses two sentences,
  not all that the chunk before it holds.
\<close>

theorem chunk_coverage_witness:
  "without_overlaps []
       [[''Aaa.'', ''Bbb.'', ''Ccc.''], [''Bbb.'', ''Ccc.'', ''Ddd.''], [''Ccc.'', ''Ddd.'', ''Eee.'']] =
     [''Aaa.'', ''Bbb.'', ''Ccc.'', ''Ddd.'', ''Eee.'']
   \<and> split_into_sentences ''Aaa. Bbb. Ccc. Ddd. Eee.'' = [''Aaa.'', ''Bbb.'', ''Ccc.'', ''Ddd.'', ''Eee.'']
   \<and> map content (create_chunks None ''Aaa. Bbb. Ccc. Ddd. Eee.'' 0 3) =
       [''Aaa. Bbb. Ccc.'', ''Bbb. Ccc. Ddd.'', ''Ccc. Ddd. Eee.'']
   \<and> take 2 [''Bbb.'', ''Ccc.'', ''Ddd.''] = drop 1 [''Aaa.'', ''Bbb.'', ''Ccc.'']"
proof -
  have b: "map fst (chunk_buffers None ''Aaa. Bbb. Ccc. Ddd. Eee.'' 3) =
      [[''Aaa.'', ''Bbb.'', ''Ccc.''], [''Bbb.'', ''Ccc.'', ''Ddd.''], [''Ccc.'', ''Ddd.'', ''Eee.'']]"
    by code_simp
  have s: "split_into_sentences ''Aaa. Bbb. Ccc. Ddd. Eee.'' = [''Aaa.'', ''Bbb.'', ''Ccc.'', ''Ddd.'', ''Eee.'']"
    by code_simp
  have c: "map (\<lambda>b. join '' '' (fst b)) (chunk_buffers None ''Aaa. Bbb. Ccc. Ddd. Eee.'' 3) =
      [''Aaa. Bbb. Ccc.'', ''Bbb. Ccc. Ddd.'', ''Ccc. Ddd. Eee.'']"
    by code_simp
  have l: "Suc 0 < length (chunk_buffers None ''Aaa. Bbb. Ccc. Ddd. Eee.'' 3)" by code_simp
  have b0: "fst (chunk_buffers None ''Aaa. Bbb. Ccc. Ddd. Eee.'' 3 ! 0) = [''Aaa.'', ''Bbb.'', ''Ccc.'']" by code_simp
  have b1: "fst (chunk_buffers None ''Aaa. Bbb. Ccc. Ddd. Eee.'' 3 ! Suc 0) = [''Bbb.'', ''Ccc.'', ''Ddd.'']" by code_simp
  note cov = chunk_coverage [of None "''Aaa. Bbb. Ccc. Ddd. Eee.''" 3 0]
  from cov have 1: "without_overlaps []
       [[''Aaa.'', ''Bbb.'', ''Ccc.''], [''Bbb.'', ''Ccc.'', ''Ddd.''], [''Ccc.'', ''Ddd.'', ''Eee.'']] =
     [''Aaa.'', ''Bbb.'', ''Ccc.'', ''Ddd.'', ''Eee.'']"
    unfolding b s by (rule conjunct1)
  from cov have 2: "map content (create_chunks None ''Aaa. Bbb. Ccc. Ddd. Eee.'' 0 3) =
       [''Aaa. Bbb. Ccc.'', ''Bbb. Ccc. Ddd.'', ''Ccc. Ddd. Eee.'']"
    unfolding c by (rule conjunct2 [THEN conjunct1])
  from cov l have "take (min 2 (length (fst (chunk_buffers None ''Aaa. Bbb. Ccc. Ddd. Eee.'' 3 ! 0))))
           (fst (chunk_buffers None ''Aaa. Bbb. Ccc. Ddd. Eee.'' 3 ! Suc 0)) =
         drop (length (fst (chunk_buffers None ''Aaa. Bbb. Ccc. Ddd. Eee.'' 3 ! 0)) - 2)
           (fst (chunk_buffers None ''Aaa. Bbb. Ccc. Ddd. Eee.'' 3 ! 0))"
    by blast
  then have 3: "take 2 [''Bbb.'', ''Ccc.'', ''Ddd.''] = drop 1 [''Aaa.'', ''Bbb.'', ''Ccc.'']"
    unfolding b0 b1 by simp
  from 1 s 2 3 show ?thesis by blast
qed

section \<open>Properties of the text normaliser\<close>

lemma replace_chars_repair:
  "replace_char CHR ''0'' CHR ''O'' (replace_char CHR ''|'' CHR ''I'' t) = map repair t"
  by (simp add: replace_char_def repair_def)

lemma is_space_repair [simp]: "is_space (repair c) = is_space c"
  by (auto simp: is_space_def repair_def)

lemma is_digit_repair: "is_digit (repair c) \<Longrightarrow> is_digit c"
  by (auto simp: is_digit_def repair_def split: if_splits)

lemma repair_repair [simp]: "repair (repair c) = repair c"
  by (simp add: repair_def)

lemma repair_space: "is_space c \<Longrightarrow> repair c = c"
  by (auto simp: is_space_def repair_def)

lemma digit_not_space: "is_digit c \<Longrightarrow> \<not> is_space c"
  by (auto simp: is_digit_def is_space_def)

lemma is_space_newline [simp]: "is_space newline"
  by (simp add: is_space_def newline_def)

lemma is_space_blank [simp]: "is_space CHR '' ''"
  by (simp add: is_space_def)

lemma newline_not_blank: "newline \<noteq> CHR '' ''"
  by (simp add: newline_def)

lemma strip_decomp:
  "t = takeWhile is_space t @ strip t @ rev (takeWhile is_space (rev (dropWhile is_space t)))"
proof -
  let ?u = "dropWhile is_space t"
  have "?u = rev (dropWhile is_space (rev ?u)) @ rev (takeWhile is_space (rev ?u))"
    by (metis rev_append rev_rev_ident takeWhile_dropWhile_id)
  then have "?u = strip t @ rev (takeWhile is_space (rev ?u))"
    by (simp only: strip_def)
  moreover have "t = takeWhile is_space t @ ?u" by simp
  ultimately show ?thesis by metis
qed

lemma set_strip_subset: "set (strip t) \<subseteq> set t"
  using strip_decomp [of t] by (metis Un_upper1 Un_upper2 set_append subset_trans)

lemma strip_fixed:
  assumes "u = [] \<or> (\<not> is_space (hd u) \<and> \<not> is_space (last u))"
  shows "strip u = u"
proof (cases "u = []")
  case True
  then show ?thesis by (simp add: strip_def)
next
  case False
  with assms have h: "\<not> is_space (hd u)" and l: "\<not> is_space (last u)" by simp_all
  from False h have 1: "dropWhile is_space u = u" by (cases u) simp_all
  from False l have "\<not> is_space (hd (rev u))" by (simp add: hd_rev)
  with False have 2: "dropWhile is_space (rev u) = rev u" by (cases "rev u") simp_all
  show ?thesis by (simp add: strip_def 1 2)
qed

lemma strip_ends:
  "strip t = [] \<or> (\<not> is_space (hd (strip t)) \<and> \<not> is_space (last (strip t)))"
proof (cases "strip t = []")
  case True
  then show ?thesis by simp
next
  case False
  let ?u = "dropWhile is_space t"
  let ?v = "dropWhile is_space (rev ?u)"
  have st: "strip t = rev ?v" by (simp add: strip_def)
  with False have v: "?v \<noteq> []" by simp
  then have "\<not> is_space (hd ?v)" by (rule hd_dropWhile)
  then have l: "\<not> is_space (last (strip t))" using v by (simp add: st last_rev)
  from v have u: "?u \<noteq> []" by (metis dropWhile.simps(1) rev.simps(1))
  then have hu: "\<not> is_space (hd ?u)" by (rule hd_dropWhile)
  have "rev ?u = takeWhile is_space (rev ?u) @ ?v" by simp
  then have "last (rev ?u) = last ?v" using v by (metis last_appendR)
  then have "hd ?u = last ?v" using u by (simp add: last_rev)
  then have "hd (strip t) = hd ?u" using v by (simp add: st hd_rev)
  with hu l show ?thesis by simp
qed

lemma strip_strip [simp]: "strip (strip t) = strip t"
  using strip_ends by (rule strip_fixed)

lemma strip_map_repair: "strip (map repair t) = map repair (strip t)"
  by (simp add: strip_def dropWhile_map rev_map comp_def)

lemma collapse_ws_hd:
  "t = [] \<or> \<not> is_space (hd t) \<Longrightarrow> collapse_ws t = [] \<or> \<not> is_space (hd (collapse_ws t))"
  by (cases t) auto

lemma collapse_ws_spaces: "c \<in> set (collapse_ws t) \<Longrightarrow> is_space c \<Longrightarrow> c = CHR '' ''"
  by (induction t rule: collapse_ws.induct) (auto split: if_splits)

lemma collapse_ws_successively:
  "successively (\<lambda>a b. \<not> (is_space a \<and> is_space b)) (collapse_ws t)"
proof (induction t rule: collapse_ws.induct)
  case 1
  then show ?case by simp
next
  case (2 c cs)
  show ?case
  proof (cases "is_space c")
    case True
    let ?r = "dropWhile is_space cs"
    have "?r = [] \<or> \<not> is_space (hd ?r)" using hd_dropWhile by blast
    then have "collapse_ws ?r = [] \<or> \<not> is_space (hd (collapse_ws ?r))"
      by (rule collapse_ws_hd)
    then show ?thesis using True "2.IH"(1) by (auto simp: successively_Cons)
  next
    case False
    then show ?thesis using "2.IH"(2) by (auto simp: successively_Cons)
  qed
qed

lemma single_spaced_collapse_ws: "single_spaced (collapse_ws t)"
  unfolding single_spaced_def using collapse_ws_spaces collapse_ws_successively by blast

lemma collapse_ws_fixed: "single_spaced t \<Longrightarrow> collapse_ws t = t"
proof (induction t rule: collapse_ws.induct)
  case 1
  then show ?case by simp
next
  case (2 c cs)
  from "2.prems" have tl: "single_spaced cs"
    by (auto simp: single_spaced_def successively_Cons)
  show ?case
  proof (cases "is_space c")
    case True
    with "2.prems" have c: "c = CHR '' ''" and nx: "cs = [] \<or> \<not> is_space (hd cs)"
      by (auto simp: single_spaced_def successively_Cons)
    from nx have "dropWhile is_space cs = cs" by (cases cs) auto
    then show ?thesis using True c tl "2.IH"(1) by simp
  next
    case False
    then show ?thesis using tl "2.IH"(2) by simp
  qed
qed

lemma single_spaced_no_newline: "single_spaced t \<Longrightarrow> newline \<notin> set t"
  unfolding single_spaced_def using is_space_newline newline_not_blank by blast

lemma single_spaced_map_repair: "single_spaced t \<Longrightarrow> single_spaced (map repair t)"
  unfolding single_spaced_def
  by (auto simp: successively_map repair_space)

lemma single_spaced_strip: "single_spaced t \<Longrightarrow> single_spaced (strip t)"
proof -
  assume a: "single_spaced t"
  obtain p q where t: "t = p @ strip t @ q" using strip_decomp by blast
  from a have "successively (\<lambda>a b. \<not> (is_space a \<and> is_space b)) (p @ strip t @ q)"
    unfolding single_spaced_def using t by simp
  then have "successively (\<lambda>a b. \<not> (is_space a \<and> is_space b)) (strip t)"
    by (simp add: successively_append_iff)
  moreover from a have "\<forall>c \<in> set (strip t). is_space c \<longrightarrow> c = CHR '' ''"
    unfolding single_spaced_def using set_strip_subset by blast
  ultimately show ?thesis by (simp add: single_spaced_def)
qed

lemma sub_line_breaks_no_newline: "newline \<notin> set t \<Longrightarrow> sub_line_breaks t = t"
  by (induction t) (auto simp: Let_def)

lemma sub_page_numbers_False: "newline \<notin> set t \<Longrightarrow> sub_page_numbers False t = t"
  by (induction t) auto

lemma strip_decomp_tail:
  "dropWhile is_space t = strip t @ rev (takeWhile is_space (rev (dropWhile is_space t)))"
proof -
  let ?u = "dropWhile is_space t"
  have "?u = rev (dropWhile is_space (rev ?u)) @ rev (takeWhile is_space (rev ?u))"
    by (metis rev_append rev_rev_ident takeWhile_dropWhile_id)
  then show ?thesis by (simp only: strip_def)
qed

lemma all_spaces_no_digit:
  assumes "\<forall>x \<in> set b. is_space x"
  shows "takeWhile is_digit b = []" and "dropWhile is_digit b = b"
proof -
  have "b = [] \<or> \<not> is_digit (hd b)"
    using assms digit_not_space by (cases b) auto
  then show "takeWhile is_digit b = []" and "dropWhile is_digit b = b"
    by (simp_all add: takeWhile_eq_Nil_iff dropWhile_eq_self_iff)
qed

lemma numeric_line_iff:
  "numeric_line t \<longleftrightarrow>
     takeWhile is_digit (dropWhile is_space t) \<noteq> [] \<and>
     dropWhile is_space (dropWhile is_digit (dropWhile is_space t)) = []"
proof
  let ?u = "dropWhile is_space t"
  let ?b = "rev (takeWhile is_space (rev ?u))"
  assume n: "numeric_line t"
  then have ne: "strip t \<noteq> []" and dg: "\<forall>c \<in> set (strip t). is_digit c"
    by (simp_all add: numeric_line_def)
  have u: "?u = strip t @ ?b" by (rule strip_decomp_tail)
  have b: "\<forall>x \<in> set ?b. is_space x" using set_takeWhileD by fastforce
  have "takeWhile is_digit (strip t @ ?b) = strip t @ takeWhile is_digit ?b"
    using dg by (simp add: takeWhile_append2)
  then have 1: "takeWhile is_digit ?u = strip t"
    using u all_spaces_no_digit(1) [OF b] by simp
  have "dropWhile is_digit (strip t @ ?b) = dropWhile is_digit ?b"
    using dg by (simp add: dropWhile_append2)
  then have 2: "dropWhile is_digit ?u = ?b"
    using u all_spaces_no_digit(2) [OF b] by simp
  have 3: "dropWhile is_space ?b = []" using b by (simp add: dropWhile_eq_Nil_conv)
  from 1 2 3 ne show "takeWhile is_digit ?u \<noteq> [] \<and> dropWhile is_space (dropWhile is_digit ?u) = []"
    by simp
next
  let ?u = "dropWhile is_space t"
  let ?ds = "takeWhile is_digit ?u"
  let ?r2 = "dropWhile is_digit ?u"
  assume "?ds \<noteq> [] \<and> dropWhile is_space ?r2 = []"
  then have ne: "?ds \<noteq> []" and r2: "\<forall>x \<in> set ?r2. is_space x"
    by (simp_all add: dropWhile_eq_Nil_conv)
  have dg: "\<forall>c \<in> set ?ds. is_digit c" using set_takeWhileD by fastforce
  have "rev ?u = rev ?r2 @ rev ?ds"
    by (metis rev_append takeWhile_dropWhile_id)
  moreover have "dropWhile is_space (rev ?r2 @ rev ?ds) = dropWhile is_space (rev ?ds)"
    using r2 by (intro dropWhile_append2) simp
  ultimately have "dropWhile is_space (rev ?u) = dropWhile is_space (rev ?ds)"
    by (simp only:)
  moreover have "\<not> is_space (hd (rev ?ds))"
    using ne dg digit_not_space by (simp add: hd_rev)
  then have "dropWhile is_space (rev ?ds) = rev ?ds"
    using ne by (simp add: dropWhile_eq_self_iff)
  ultimately have "strip t = ?ds" by (simp add: strip_def)
  with ne dg show "numeric_line t" by (simp add: numeric_line_def)
qed

lemma match_page_number_no_newline:
  assumes "newline \<notin> set t"
  shows "match_page_number t = (if numeric_line t then Some (False, []) else None)"
proof -
  define r1 where "r1 = dropWhile is_space t"
  define ds where "ds = takeWhile is_digit r1"
  define r2 where "r2 = dropWhile is_digit r1"
  define w where "w = takeWhile is_space r2"
  define r3 where "r3 = dropWhile is_space r2"
  have m: "match_page_number t =
      (if ds = [] then None
       else if r3 = [] then Some (False, [])
       else if newline \<in> set w then
         Some (take (length w - length (after_last_newline w) - 1) w \<noteq> [] \<and>
               last (take (length w - length (after_last_newline w) - 1) w) = newline,
               newline # after_last_newline w @ r3)
       else None)"
    unfolding match_page_number_def Let_def r1_def ds_def r2_def w_def r3_def by (rule refl)
  have nl: "newline \<notin> set w"
  proof
    assume "newline \<in> set w"
    then have "newline \<in> set r2" unfolding w_def by (rule set_takeWhileD [THEN conjunct1])
    then have "newline \<in> set r1" unfolding r2_def by (rule set_dropWhileD)
    then have "newline \<in> set t" unfolding r1_def by (rule set_dropWhileD)
    with assms show False by simp
  qed
  have n: "numeric_line t \<longleftrightarrow> ds \<noteq> [] \<and> r3 = []"
    unfolding numeric_line_iff ds_def r3_def r2_def r1_def by (rule refl)
  show ?thesis
  proof (cases "numeric_line t")
    case True
    with n have "ds \<noteq> []" and "r3 = []" by simp_all
    then show ?thesis using True by (simp add: m)
  next
    case False
    with n have "ds = [] \<or> r3 \<noteq> []" by simp
    then show ?thesis
    proof
      assume "ds = []"
      then show ?thesis using False by (simp add: m)
    next
      assume "r3 \<noteq> []"
      then show ?thesis using False nl by (simp add: m)
    qed
  qed
qed

lemma numeric_line_Nil [simp]: "\<not> numeric_line []"
  by (simp add: numeric_line_def strip_def)

lemma sub_page_numbers_no_newline:
  assumes "newline \<notin> set t"
  shows "sub_page_numbers True t = (if numeric_line t then [] else t)"
proof (cases t)
  case Nil
  then show ?thesis by simp
next
  case (Cons c cs)
  from assms have cs: "newline \<notin> set cs" and c: "c \<noteq> newline" by (auto simp: Cons)
  show ?thesis
    using match_page_number_no_newline [OF assms] c
    by (simp add: Cons sub_page_numbers_False [OF cs])
qed

lemma clean_text_eq:
  "clean_text x =
     (if numeric_line (collapse_ws x) then [] else strip (map repair (collapse_ws x)))"
proof -
  let ?t = "collapse_ws x"
  have nl: "newline \<notin> set ?t"
    using single_spaced_collapse_ws by (rule single_spaced_no_newline)
  show ?thesis
  proof (cases "numeric_line ?t")
    case True
    then show ?thesis
      by (simp add: clean_text_def sub_page_numbers_no_newline [OF nl] replace_char_def strip_def)
  next
    case False
    have "newline \<notin> set (map repair ?t)"
      using single_spaced_collapse_ws [of x]
      by (intro single_spaced_no_newline single_spaced_map_repair)
    then have "sub_line_breaks (map repair ?t) = map repair ?t"
      by (rule sub_line_breaks_no_newline)
    then show ?thesis
      using False
      by (simp add: clean_text_def sub_page_numbers_no_newline [OF nl] replace_chars_repair)
  qed
qed

lemma single_spaced_Nil [simp]: "single_spaced []"
  by (simp add: single_spaced_def)

lemma single_spaced_clean_text: "single_spaced (clean_text x)"
  by (simp add: clean_text_eq single_spaced_strip single_spaced_map_repair
      single_spaced_collapse_ws)

lemma numeric_line_clean_text: "\<not> numeric_line (clean_text x)"
proof (cases "numeric_line (collapse_ws x)")
  case True
  then show ?thesis by (simp add: clean_text_eq)
next
  case False
  let ?t = "collapse_ws x"
  have "numeric_line ?t" if n: "numeric_line (strip (map repair ?t))"
  proof -
    from n have ne: "map repair (strip ?t) \<noteq> []"
      and dg: "\<forall>c \<in> set (map repair (strip ?t)). is_digit c"
      by (simp_all add: numeric_line_def strip_map_repair)
    from dg have "\<forall>c \<in> set (strip ?t). is_digit c"
      using is_digit_repair by auto
    with ne show ?thesis by (simp add: numeric_line_def)
  qed
  with False show ?thesis by (auto simp: clean_text_eq)
qed

lemma map_repair_clean_text: "map repair (clean_text x) = clean_text x"
proof (cases "numeric_line (collapse_ws x)")
  case True
  then show ?thesis by (simp add: clean_text_eq)
next
  case False
  then show ?thesis by (simp add: clean_text_eq strip_map_repair [symmetric] comp_def)
qed

text \<open>
  C6. The text normaliser is idempotent: cleaning a cleaned text changes nothing.
\<close>

theorem clean_text_idempotent: "clean_text (clean_text x) = clean_text x"
proof -
  let ?y = "clean_text x"
  have 1: "collapse_ws ?y = ?y"
    using single_spaced_clean_text by (rule collapse_ws_fixed)
  have 2: "\<not> numeric_line ?y" by (rule numeric_line_clean_text)
  have 3: "strip ?y = ?y"
    by (cases "numeric_line (collapse_ws x)") (simp_all add: clean_text_eq strip_fixed)
  have "clean_text ?y = strip (map repair ?y)"
    by (subst clean_text_eq) (simp only: 1 2 if_False)
  then show ?thesis by (simp only: map_repair_clean_text 3)
qed

text \<open>
  C7. A line that holds only a number is not removed: the whitespace collapse runs first
  and turns the line breaks into spaces, so when the page-number pattern is applied there
  are no lines left (it can only match a text that is a number as a whole). On the raw
  text the same substitution does remove the line.
\<close>

theorem clean_text_keeps_numeric_line:
  "clean_text ''Hello\<newline>42\<newline>World'' = ''Hello 42 World''
   \<and> sub_page_numbers True ''Hello\<newline>42\<newline>World'' = ''Hello\<newline>\<newline>World''"
  by code_simp

section \<open>Properties of the context assembly\<close>

lemma budget_prefix_le: "budget_prefix m cur rs \<le> length rs"
  by (induction rs arbitrary: cur) auto

lemma budget_prefix_within:
  "0 < j \<Longrightarrow> j \<le> budget_prefix m cur rs \<Longrightarrow>
   cur + sum_list (map tokens_of (take j rs)) \<le> m"
proof (induction rs arbitrary: cur j)
  case Nil
  then show ?case by simp
next
  case (Cons r rs)
  from Cons.prems have fit: "\<not> cur + tokens_of r > m"
    and le: "j \<le> Suc (budget_prefix m (cur + tokens_of r) rs)"
    by (auto split: if_splits)
  show ?case
  proof (cases j)
    case 0
    with Cons.prems show ?thesis by simp
  next
    case (Suc j')
    show ?thesis
    proof (cases "j' = 0")
      case True
      with Suc fit show ?thesis by simp
    next
      case False
      with Suc le have "(cur + tokens_of r) + sum_list (map tokens_of (take j' rs)) \<le> m"
        by (intro Cons.IH) simp_all
      with Suc show ?thesis by (simp add: add.assoc)
    qed
  qed
qed

lemma budget_prefix_stop:
  "budget_prefix m cur rs < length rs \<Longrightarrow>
   cur + sum_list (map tokens_of (take (Suc (budget_prefix m cur rs)) rs)) > m"
proof (induction rs arbitrary: cur)
  case Nil
  then show ?case by simp
next
  case (Cons r rs)
  show ?case
  proof (cases "cur + tokens_of r > m")
    case True
    then show ?thesis by simp
  next
    case False
    with Cons.prems have "budget_prefix m (cur + tokens_of r) rs < length rs" by simp
    then have "(cur + tokens_of r) +
        sum_list (map tokens_of (take (Suc (budget_prefix m (cur + tokens_of r) rs)) rs)) > m"
      by (rule Cons.IH)
    with False show ?thesis by (simp add: add.assoc)
  qed
qed

lemma context_loop_prefix:
  assumes "\<forall>r \<in> set rs. result_tokens r \<noteq> None"
  shows "context_loop m rs (parts, cur) =
     Some (parts @ map context_part (take (budget_prefix m cur rs) rs),
           cur + sum_list (map tokens_of (take (budget_prefix m cur rs) rs)))"
  using assms
proof (induction rs arbitrary: parts cur)
  case Nil
  then show ?case by simp
next
  case (Cons r rs)
  from Cons.prems obtain n where n: "result_tokens r = Some n" by auto
  then have t: "tokens_of r = n" by (simp add: tokens_of_def)
  show ?case
  proof (cases "cur + n > m")
    case True
    then show ?thesis by (simp add: n t)
  next
    case False
    from Cons.prems have "\<forall>r \<in> set rs. result_tokens r \<noteq> None" by simp
    then show ?thesis using False by (simp add: n t Cons.IH add.assoc)
  qed
qed

lemma context_of_results_prefix:
  assumes "\<forall>r \<in> set rs. result_tokens r \<noteq> None"
  shows "context_of_results m rs =
     join blank_line (map context_part (take (budget_prefix m 0 rs) rs))"
  by (cases "rs = []") (simp_all add: context_of_results_def context_loop_prefix [OF assms])

lemma search_subseq:
  assumes "near_text wv query (top_k * 3) = Some provided"
  shows "subseq (search wv query top_k filename) provided"
    and "length (search wv query top_k filename) \<le> top_k"
proof -
  have tk: "subseq (take top_k xs) xs" for xs :: "search_result list"
    by (rule prefix_imp_subseq) (simp add: take_is_prefix)
  have "subseq (take top_k (filter P provided)) provided" for P
    using tk [of "filter P provided"] subseq_filter_left [of P provided]
    by (rule subseq_order.trans)
  with tk show "subseq (search wv query top_k filename) provided"
    using assms by (simp add: search_def)
  show "length (search wv query top_k filename) \<le> top_k"
    using assms by (simp add: search_def)
qed

text \<open>
  C2. Let \<open>results\<close> be what \<open>search\<close> returns for the query: at most 20 results, in
  the order of the store's answer to a request for 60. When every result carries a token
  count, the context is made of the first \<open>k\<close> results, each as \<open>[Page n] content\<close>,
  joined by blank lines, where every running total up to \<open>k\<close> is within \<open>max_tokens\<close> and
  the next candidate, if there is one, would exceed it; so no candidate is cut, and for a
  budget that is not negative the tokens of the context are within it. The context is
  empty when there are no results and when the first one alone exceeds the budget.
\<close>

theorem get_relevant_context_budget:
  assumes "search wv query 20 filename = results"
    and "\<forall>r \<in> set results. result_tokens r \<noteq> None"
  shows "\<exists>k \<le> length results.
       get_relevant_context wv query max_tokens filename =
         join blank_line (map context_part (take k results))
     \<and> (\<forall>j. 0 < j \<and> j \<le> k \<longrightarrow> sum_list (map tokens_of (take j results)) \<le> max_tokens)
     \<and> (k < length results \<longrightarrow> sum_list (map tokens_of (take (Suc k) results)) > max_tokens)
     \<and> (0 \<le> max_tokens \<longrightarrow> sum_list (map tokens_of (take k results)) \<le> max_tokens)
     \<and> (results = [] \<longrightarrow> get_relevant_context wv query max_tokens filename = [])
     \<and> (results \<noteq> [] \<and> tokens_of (hd results) > max_tokens \<longrightarrow>
          get_relevant_context wv query max_tokens filename = [])
     \<and> (\<forall>provided. near_text wv query 60 = Some provided \<longrightarrow>
          subseq results provided \<and> length results \<le> 20)"
proof -
  let ?k = "budget_prefix max_tokens 0 results"
  have ctx: "get_relevant_context wv query max_tokens filename =
      join blank_line (map context_part (take ?k results))"
    using assms by (simp add: get_relevant_context_def context_of_results_prefix)
  have le: "?k \<le> length results" by (rule budget_prefix_le)
  have within: "\<forall>j. 0 < j \<and> j \<le> ?k \<longrightarrow> sum_list (map tokens_of (take j results)) \<le> max_tokens"
    using budget_prefix_within [of _ max_tokens 0 results] by simp
  have stop: "?k < length results \<longrightarrow>
      sum_list (map tokens_of (take (Suc ?k) results)) > max_tokens"
    using budget_prefix_stop [of max_tokens 0 results] by simp
  have total: "0 \<le> max_tokens \<longrightarrow> sum_list (map tokens_of (take ?k results)) \<le> max_tokens"
    using within by (cases "?k = 0") auto
  have empty: "results = [] \<longrightarrow> get_relevant_context wv query max_tokens filename = []"
    using ctx by auto
  have first: "results \<noteq> [] \<and> tokens_of (hd results) > max_tokens \<longrightarrow>
      get_relevant_context wv query max_tokens filename = []"
  proof (cases results)
    case Nil
    then show ?thesis by simp
  next
    case (Cons r rs)
    then show ?thesis using ctx by simp
  qed
  have order: "\<forall>provided. near_text wv query 60 = Some provided \<longrightarrow>
      subseq results provided \<and> length results \<le> 20"
    using search_subseq [of wv query 20 _ filename] assms(1) by auto
  from le ctx within stop total empty first order show ?thesis by blast
qed

text \<open>An instance of C2: a budget of 50 and three candidates of 20 tokens.\<close>

theorem get_relevant_context_budget_witness:
  "search example_weaviate ''q'' 20 (Some ''f.pdf'') = example_results
   \<and> map result_tokens example_results = [Some 20, Some 20, Some 20]
   \<and> get_relevant_context example_weaviate ''q'' 50 (Some ''f.pdf'') =
       ''[Page 1] aa\<newline>\<newline>[Page 2] bb''"
proof -
  have n: "near_text example_weaviate ''q'' 60 = Some example_results"
    by (simp add: example_weaviate_def)
  have f: "filter (\<lambda>r. result_filename r = ''f.pdf'') example_results = example_results"
    by (simp add: example_results_def)
  have l: "length example_results = 3"
    by (simp add: example_results_def)
  have s: "search example_weaviate ''q'' 20 (Some ''f.pdf'') = example_results"
    by (simp add: search_def n f l)
  have m: "map result_tokens example_results = [Some 20, Some 20, Some 20]"
    by (simp add: example_results_def)
  then have t: "\<forall>r \<in> set example_results. result_tokens r \<noteq> None"
    by (simp add: example_results_def)
  have sums: "sum_list (map tokens_of (take 1 example_results)) = 20"
    "sum_list (map tokens_of (take 2 example_results)) = 40"
    "sum_list (map tokens_of (take 3 example_results)) = 60"
    by (simp_all add: example_results_def tokens_of_def)
  from get_relevant_context_budget [OF s t, of 50]
  obtain k where k: "k \<le> length example_results"
    and c: "get_relevant_context example_weaviate ''q'' 50 (Some ''f.pdf'') =
          join blank_line (map context_part (take k example_results))"
    and st: "k < length example_results \<longrightarrow>
          sum_list (map tokens_of (take (Suc k) example_results)) > 50"
    and tot: "(0::int) \<le> 50 \<longrightarrow> sum_list (map tokens_of (take k example_results)) \<le> 50"
    by blast
  from k l have "k = 0 \<or> k = 1 \<or> k = 2 \<or> k = 3" by arith
  then have "k = 2"
  proof (elim disjE)
    assume "k = 0"
    with st l sums show ?thesis by simp
  next
    assume "k = 1"
    with st l sums show ?thesis by (simp add: numeral_2_eq_2)
  next
    assume "k = 2"
    then show ?thesis .
  next
    assume "k = 3"
    with tot sums show ?thesis by simp
  qed
  have j: "join blank_line (map context_part (take 2 example_results)) =
      ''[Page 1] aa\<newline>\<newline>[Page 2] bb''"
    by code_simp
  from s m c show ?thesis unfolding \<open>k = 2\<close> j by simp
qed

section \<open>Properties of the chat service\<close>

lemma chat_service_unchanged: "fst (chat wv generate self message history) = self"
  by (simp add: chat_def Let_def split: sum.split prod.split)

lemma chat_run_unchanged: "chat_run wv self requests = self"
  by (induction requests arbitrary: self) (auto simp: chat_service_unchanged)

lemma chat_only_searches:
  assumes "near_text wv1 = near_text wv2"
  shows "chat wv1 generate self message history = chat wv2 generate self message history"
proof -
  have "search wv1 q k f = search wv2 q k f" for q k f
    using assms by (simp add: search_def)
  then have "chat_messages wv1 self message history = chat_messages wv2 self message history"
    by (simp add: chat_messages_def chat_relevant_context_def get_relevant_context_def)
  then show ?thesis by (simp add: chat_def)
qed

lemma use_rag_set_pdf_context:
  "use_rag (set_pdf_context wv self pdf_text chunks filename) \<longleftrightarrow>
     (\<exists>cs. chunks = Some cs \<and> 5 < length cs \<and> create_embeddings wv cs filename)"
  by (cases chunks) (auto simp: set_pdf_context_def Let_def)

lemma create_system_prompt_preview:
  assumes "pdf_context self = Some pdf_text" and "pdf_text \<noteq> []" and "\<not> use_rag self"
  shows "create_system_prompt self [] =
     base_prompt @ [newline, newline] @ ''PDF Content:'' @ [newline] @ take 4000 pdf_text @
     (if length pdf_text > 4000 then preview_note else [])"
  using assms by (simp add: create_system_prompt_def Let_def)

lemma chat_messages_hd:
  "chat_messages wv self message history ! 0 =
     (''system'', create_system_prompt self (chat_relevant_context wv self message))"
  by (cases history) (simp_all add: chat_messages_def Let_def)

text \<open>
  C3. After \<open>set_pdf_context\<close>, retrieval mode is on exactly when the document has more
  than 5 chunks and \<open>create_embeddings\<close> succeeded. Chat requests leave the service as
  it is, so the mode stays for as long as the document is loaded: each request reports
  that mode and takes its context by retrieval when the mode is on and from the start of
  the document text otherwise. A request reads the store only through \<open>near_text\<close>:
  whether insertion would succeed has no influence on it, and nothing is embedded again.
\<close>

theorem retrieval_mode_iff:
  assumes "st = set_pdf_context wv self pdf_text chunks filename"
  shows "(use_rag st \<longleftrightarrow>
            (\<exists>cs. chunks = Some cs \<and> 5 < length cs \<and> create_embeddings wv cs filename))
     \<and> pdf_context st = Some pdf_text
     \<and> chat_run wv' st requests = st
     \<and> (\<forall>out. snd (snd (chat wv' generate st message history)) = Inr out \<longrightarrow>
            rag_used out = use_rag st)
     \<and> chat_relevant_context wv' st message =
          (if use_rag st then get_relevant_context wv' message 5000 (Some filename)
           else take 5000 pdf_text)
     \<and> (\<forall>wv''. near_text wv'' = near_text wv' \<longrightarrow>
            chat wv'' generate st message history = chat wv' generate st message history)"
proof -
  have 1: "use_rag st \<longleftrightarrow>
      (\<exists>cs. chunks = Some cs \<and> 5 < length cs \<and> create_embeddings wv cs filename)"
    unfolding assms by (rule use_rag_set_pdf_context)
  have 2: "pdf_context st = Some pdf_text"
    unfolding assms by (cases chunks) (simp_all add: set_pdf_context_def Let_def)
  have fn: "current_filename st = Some filename"
    unfolding assms by (cases chunks) (simp_all add: set_pdf_context_def Let_def)
  have 3: "chat_run wv' st requests = st" by (rule chat_run_unchanged)
  have 4: "\<forall>out. snd (snd (chat wv' generate st message history)) = Inr out \<longrightarrow>
      rag_used out = use_rag st"
    by (auto simp: chat_def Let_def split: sum.splits prod.splits)
  have 5: "chat_relevant_context wv' st message =
      (if use_rag st then get_relevant_context wv' message 5000 (Some filename)
       else take 5000 pdf_text)"
    by (simp add: chat_relevant_context_def 2 fn)
  have 6: "\<forall>wv''. near_text wv'' = near_text wv' \<longrightarrow>
      chat wv'' generate st message history = chat wv' generate st message history"
    using chat_only_searches by blast
  from 1 2 3 4 5 6 show ?thesis by blast
qed

text \<open>
  Instances of C3: six chunks and a working store; five chunks; six chunks and a store
  whose insertion fails.
\<close>

theorem retrieval_mode_iff_witness:
  "use_rag (set_pdf_context example_weaviate example_service ''doc'' (Some example_chunks) ''f.pdf'')
   \<and> \<not> use_rag (set_pdf_context example_weaviate example_service ''doc''
          (Some (take 5 example_chunks)) ''f.pdf'')
   \<and> \<not> use_rag (set_pdf_context (example_weaviate\<lparr>insert_many_ok := (\<lambda>batch. False)\<rparr>)
          example_service ''doc'' (Some example_chunks) ''f.pdf'')"
proof -
  have l: "length example_chunks = 6" by (simp add: example_chunks_def)
  have e: "create_embeddings example_weaviate example_chunks ''f.pdf''"
    by code_simp
  have f: "\<not> create_embeddings (example_weaviate\<lparr>insert_many_ok := (\<lambda>batch. False)\<rparr>)
      example_chunks ''f.pdf''"
    by code_simp
  have 1: "use_rag (set_pdf_context example_weaviate example_service ''doc''
      (Some example_chunks) ''f.pdf'')"
    using retrieval_mode_iff [OF refl, of example_weaviate example_service "''doc''"
        "Some example_chunks" "''f.pdf''"] l e
    by simp
  have 2: "\<not> use_rag (set_pdf_context example_weaviate example_service ''doc''
      (Some (take 5 example_chunks)) ''f.pdf'')"
    using retrieval_mode_iff [OF refl, of example_weaviate example_service "''doc''"
        "Some (take 5 example_chunks)" "''f.pdf''"] l
    by simp
  have 3: "\<not> use_rag (set_pdf_context (example_weaviate\<lparr>insert_many_ok := (\<lambda>batch. False)\<rparr>)
      example_service ''doc'' (Some example_chunks) ''f.pdf'')"
    using retrieval_mode_iff [OF refl, of "example_weaviate\<lparr>insert_many_ok := (\<lambda>batch. False)\<rparr>"
        example_service "''doc''" "Some example_chunks" "''f.pdf''"] f
    by simp
  from 1 2 3 show ?thesis by blast
qed

text \<open>
  C8, as amended. When \<open>create_system_prompt\<close> gets an empty context while a non-empty
  document is loaded and retrieval mode is off, the prompt is the fixed instructions and
  the first 4000 characters of the document, with the truncation notice appended exactly
  when the document is longer than 4000 characters. When retrieval mode is on and
  retrieval yields no context, the system message that \<open>chat\<close> sends is the fixed
  instructions alone.
\<close>

theorem system_prompt_fallback:
  "(pdf_context self = Some pdf_text \<and> pdf_text \<noteq> [] \<and> \<not> use_rag self \<longrightarrow>
      create_system_prompt self [] =
        base_prompt @ [newline, newline] @ ''PDF Content:'' @ [newline] @ take 4000 pdf_text @
        (if length pdf_text > 4000 then preview_note else []))
   \<and> (use_rag self \<and> get_relevant_context wv message 5000 (current_filename self) = [] \<longrightarrow>
      chat_messages wv self message history ! 0 = (''system'', base_prompt))"
proof -
  have "chat_messages wv self message history ! 0 = (''system'', base_prompt)"
    if "use_rag self" and "get_relevant_context wv message 5000 (current_filename self) = []"
    using that
    by (simp add: chat_messages_hd chat_relevant_context_def create_system_prompt_def
        split: option.split)
  then show ?thesis using create_system_prompt_preview by blast
qed

text \<open>
  Instances of the amended C8: a short document, a document of 4001 characters, and an
  empty retrieval in retrieval mode.
\<close>

theorem system_prompt_fallback_witness:
  "create_system_prompt full_context_service [] =
     base_prompt @ [newline, newline] @ ''PDF Content:'' @ [newline] @ ''ZZZ''
   \<and> create_system_prompt (full_context_service\<lparr>pdf_context := Some (replicate 4001 CHR ''Z'')\<rparr>) [] =
     base_prompt @ [newline, newline] @ ''PDF Content:'' @ [newline] @ replicate 4000 CHR ''Z'' @
     preview_note
   \<and> chat_messages empty_weaviate retrieval_service ''hi'' None ! 0 = (''system'', base_prompt)"
proof -
  have 1: "create_system_prompt full_context_service [] =
      base_prompt @ [newline, newline] @ ''PDF Content:'' @ [newline] @ ''ZZZ''"
    using system_prompt_fallback [of full_context_service "''ZZZ''"]
    by (simp add: full_context_service_def)
  have 2: "create_system_prompt
      (full_context_service\<lparr>pdf_context := Some (replicate 4001 CHR ''Z'')\<rparr>) [] =
      base_prompt @ [newline, newline] @ ''PDF Content:'' @ [newline] @ replicate 4000 CHR ''Z'' @
      preview_note"
    using system_prompt_fallback
      [of "full_context_service\<lparr>pdf_context := Some (replicate 4001 CHR ''Z'')\<rparr>"
          "replicate 4001 CHR ''Z''"]
    by (simp add: full_context_service_def)
  have g: "get_relevant_context empty_weaviate ''hi'' 5000 (current_filename retrieval_service) = []"
    by (simp add: get_relevant_context_def search_def empty_weaviate_def context_of_results_def)
  have 3: "chat_messages empty_weaviate retrieval_service ''hi'' None ! 0 = (''system'', base_prompt)"
    using system_prompt_fallback [of retrieval_service _ empty_weaviate "''hi''" None] g
    by (simp add: retrieval_service_def)
  from 1 2 3 show ?thesis by blast
qed

text \<open>
  C8 as stated fails: in retrieval mode, with the document \<open>ZZZ\<close> loaded and a
  retrieval that yields no context, the system message is the fixed instructions, which
  hold no \<open>Z\<close> at all, so no preview of the document.
\<close>

theorem system_prompt_preview_counterexample:
  "pdf_context retrieval_service = Some ''ZZZ''
   \<and> get_relevant_context empty_weaviate ''hi'' 5000 (current_filename retrieval_service) = []
   \<and> chat_messages empty_weaviate retrieval_service ''hi'' None =
       [(''system'', base_prompt), (''user'', ''hi'')]
   \<and> CHR ''Z'' \<notin> set base_prompt"
proof -
  have g: "get_relevant_context empty_weaviate ''hi'' 5000 (current_filename retrieval_service) = []"
    by (simp add: get_relevant_context_def search_def empty_weaviate_def context_of_results_def)
  have c: "chat_relevant_context empty_weaviate retrieval_service ''hi'' = []"
    using g by (simp add: chat_relevant_context_def retrieval_service_def)
  have u: "use_rag retrieval_service" by (simp add: retrieval_service_def)
  have m: "chat_messages empty_weaviate retrieval_service ''hi'' None =
      [(''system'', base_prompt), (''user'', ''hi'')]"
    by (simp add: chat_messages_def c create_system_prompt_def u split: option.split)
  have z: "CHR ''Z'' \<notin> set base_prompt"
    by (simp add: base_prompt_def)
  from g m z show ?thesis by (simp add: retrieval_service_def)
qed

text \<open>
  C9. When the language-model call fails, \<open>chat\<close> raises the error and the caller's
  history is what it was. When the call succeeds, the returned history is the given one
  (empty for \<open>None\<close>) followed by exactly two turns: the user message, then the reply.
\<close>

theorem chat_history:
  "(generate (chat_messages wv self message history) = Inl e \<longrightarrow>
      chat wv generate self message history =
        (self, history, Inl (ValueError (''Failed to process chat message: '' @ e))))
   \<and> (generate (chat_messages wv self message history) = Inr (reply, usage) \<longrightarrow>
      (\<exists>after out.
          chat wv generate self message history = (self, after, Inr out)
        \<and> response out = reply
        \<and> conversation_history out =
            (case history of None \<Rightarrow> [] | Some h \<Rightarrow> h) @
            [\<lparr>role = ''user'', msg_content = message\<rparr>,
             \<lparr>role = ''assistant'', msg_content = reply\<rparr>]))"
  by (simp add: chat_def Let_def)

text \<open>Instances of C9: a model that fails and a model that answers.\<close>

theorem chat_history_witness:
  "chat example_weaviate failing_model full_context_service ''hi''
       (Some [\<lparr>role = ''user'', msg_content = ''a''\<rparr>]) =
     (full_context_service, Some [\<lparr>role = ''user'', msg_content = ''a''\<rparr>],
      Inl (ValueError ''Failed to process chat message: timeout''))
   \<and> (\<exists>after out.
        chat example_weaviate answering_model full_context_service ''hi''
          (Some [\<lparr>role = ''user'', msg_content = ''a''\<rparr>]) =
          (full_context_service, after, Inr out)
      \<and> conversation_history out =
          [\<lparr>role = ''user'', msg_content = ''a''\<rparr>,
           \<lparr>role = ''user'', msg_content = ''hi''\<rparr>,
           \<lparr>role = ''assistant'', msg_content = ''Hello''\<rparr>])"
proof -
  have 1: "chat example_weaviate failing_model full_context_service ''hi''
       (Some [\<lparr>role = ''user'', msg_content = ''a''\<rparr>]) =
     (full_context_service, Some [\<lparr>role = ''user'', msg_content = ''a''\<rparr>],
      Inl (ValueError ''Failed to process chat message: timeout''))"
    using chat_history [of failing_model example_weaviate full_context_service "''hi''"
        "Some [\<lparr>role = ''user'', msg_content = ''a''\<rparr>]" "''timeout''"]
    by (simp add: failing_model_def)
  have 2: "\<exists>after out.
        chat example_weaviate answering_model full_context_service ''hi''
          (Some [\<lparr>role = ''user'', msg_content = ''a''\<rparr>]) =
          (full_context_service, after, Inr out)
      \<and> conversation_history out =
          [\<lparr>role = ''user'', msg_content = ''a''\<rparr>,
           \<lparr>role = ''user'', msg_content = ''hi''\<rparr>,
           \<lparr>role = ''assistant'', msg_content = ''Hello''\<rparr>]"
    using chat_history [of answering_model example_weaviate full_context_service "''hi''"
        "Some [\<lparr>role = ''user'', msg_content = ''a''\<rparr>]" _ "''Hello''" "Some 42"]
    by (simp add: answering_model_def) blast
  from 1 2 show ?thesis by blast
qed

end
